theory Spec2Isabelle
  imports Main
begin

section \<open>Common Python notions\<close>

text \<open>
  The two hash tables of the repository are embedded as explicit state-passing functions.
  A Python exception is a value of \<open>error\<close>. Keys are strings; \<open>py_ord\<close> is Python's
  \<^verbatim>\<open>ord\<close> on one character. A character of a HOL string has a code below 256; no proof
  below depends on the range of \<open>py_ord\<close>.
\<close>

datatype error = KeyError | FullError | IndexError | ZeroDivisionError | TypeError

definition py_ord :: "char \<Rightarrow> int" where
  "py_ord c = of_char c"

section \<open>hashy\_perfection\_table.py\<close>

text \<open>
  A slot of the perfection table is \<^verbatim>\<open>None\<close> or a tuple \<^verbatim>\<open>(key, value)\<close>.
  The object has the two attributes \<^verbatim>\<open>array\<close> and \<^verbatim>\<open>count\<close>.
\<close>

record 'v perfection_table =
  parray :: "(string \<times> 'v) option list"
  pcount :: int

text \<open>
  \<^verbatim>\<open>__init__\<close>: \<^verbatim>\<open>ArrayR(13)\<close> and count 0. Modelled from the spec: \<^verbatim>\<open>ArrayR\<close> (the file
  data\_structures/referential\_array.py is not among the sources at hand) is a
  fixed-length sequence of slots, every one \<^verbatim>\<open>None\<close> at first.
\<close>

definition perfection_init :: "'v perfection_table" where
  "perfection_init = \<lparr>parray = replicate 13 None, pcount = 0\<rparr>"

definition perfection_table_size :: "'v perfection_table \<Rightarrow> int" where
  "perfection_table_size t = int (length (parray t))"

text \<open>
  \<^verbatim>\<open>hash\<close>: \<^verbatim>\<open>key[0]\<close>, \<^verbatim>\<open>key[-1]\<close> and \<^verbatim>\<open>key[len(key)//2]\<close> raise IndexError on the
  empty string, before the modulus is taken.
\<close>

definition perfection_hash :: "'v perfection_table \<Rightarrow> string \<Rightarrow> error + int" where
  "perfection_hash t key =
     (if key = [] then Inl IndexError
      else if perfection_table_size t = 0 then Inl ZeroDivisionError
      else Inr ((py_ord (key ! 0) * 3 + py_ord (last key) * 5
                 + py_ord (key ! (length key div 2)) * 7) mod perfection_table_size t))"

text \<open>
  \<^verbatim>\<open>_is_valid_key\<close>: \<^verbatim>\<open>PlayerStats(key)\<close> raises ValueError, turned into KeyError, when
  \<open>key\<close> is not the value of a member of the enumeration; otherwise the method returns
  \<^verbatim>\<open>True\<close>, so the \<^verbatim>\<open>if\<close> of its callers always takes its branch. The enumeration
  lives in constants.py, which is not part of the sources at hand: the list of its values
  is the parameter \<open>stats\<close>.
\<close>

definition perfection_is_valid_key :: "string list \<Rightarrow> string \<Rightarrow> error + unit" where
  "perfection_is_valid_key stats key = (if key \<in> set stats then Inr () else Inl KeyError)"

definition perfection_getitem ::
  "string list \<Rightarrow> 'v perfection_table \<Rightarrow> string \<Rightarrow> error + 'v" where
  "perfection_getitem stats t key =
     (case perfection_is_valid_key stats key of
        Inl e \<Rightarrow> Inl e
      | Inr _ \<Rightarrow>
          (case perfection_hash t key of
             Inl e \<Rightarrow> Inl e
           | Inr position \<Rightarrow>
               (case parray t ! nat position of
                  None \<Rightarrow> Inl KeyError
                | Some (k, v) \<Rightarrow> Inr v)))"

definition perfection_setitem ::
  "string list \<Rightarrow> 'v perfection_table \<Rightarrow> string \<Rightarrow> 'v \<Rightarrow> error + 'v perfection_table" where
  "perfection_setitem stats t key data =
     (case perfection_is_valid_key stats key of
        Inl e \<Rightarrow> Inl e
      | Inr _ \<Rightarrow>
          (case perfection_hash t key of
             Inl e \<Rightarrow> Inl e
           | Inr position \<Rightarrow>
               (let t1 = (if parray t ! nat position = None
                          then t\<lparr>pcount := pcount t + 1\<rparr> else t)
                in Inr (t1\<lparr>parray := (parray t1)[nat position := Some (key, data)]\<rparr>))))"

text \<open>\<^verbatim>\<open>__delitem__\<close> does not call \<^verbatim>\<open>_is_valid_key\<close> and does not look at the slot.\<close>

definition perfection_delitem ::
  "'v perfection_table \<Rightarrow> string \<Rightarrow> error + 'v perfection_table" where
  "perfection_delitem t key =
     (case perfection_hash t key of
        Inl e \<Rightarrow> Inl e
      | Inr position \<Rightarrow>
          Inr (t\<lparr>parray := (parray t)[nat position := None], pcount := pcount t - 1\<rparr>))"

text \<open>
  \<^verbatim>\<open>keys\<close> and \<^verbatim>\<open>values\<close>: the result is an \<^verbatim>\<open>ArrayR\<close> as long as the table, filled from
  index 0; the loop runs over \<^verbatim>\<open>range(len(self))\<close>, and \<^verbatim>\<open>len(self)\<close> is \<open>count\<close>.
\<close>

fun perfection_keys_loop ::
  "'v perfection_table \<Rightarrow> nat list \<Rightarrow> string option list \<Rightarrow> nat \<Rightarrow> error + string option list" where
  "perfection_keys_loop t [] res i = Inr res"
| "perfection_keys_loop t (x # xs) res i =
     (if length (parray t) \<le> x then Inl IndexError
      else case parray t ! x of
             None \<Rightarrow> perfection_keys_loop t xs res i
           | Some (k, v) \<Rightarrow> perfection_keys_loop t xs (res[i := Some k]) (i + 1))"

definition perfection_keys :: "'v perfection_table \<Rightarrow> error + string option list" where
  "perfection_keys t =
     perfection_keys_loop t [0..<nat (pcount t)] (replicate (length (parray t)) None) 0"

fun perfection_values_loop ::
  "'v perfection_table \<Rightarrow> nat list \<Rightarrow> 'v option list \<Rightarrow> nat \<Rightarrow> error + 'v option list" where
  "perfection_values_loop t [] res i = Inr res"
| "perfection_values_loop t (x # xs) res i =
     (if length (parray t) \<le> x then Inl IndexError
      else case parray t ! x of
             None \<Rightarrow> perfection_values_loop t xs res i
           | Some (k, v) \<Rightarrow> perfection_values_loop t xs (res[i := Some v]) (i + 1))"

definition perfection_values :: "'v perfection_table \<Rightarrow> error + 'v option list" where
  "perfection_values t =
     perfection_values_loop t [0..<nat (pcount t)] (replicate (length (parray t)) None) 0"

text \<open>
  The states a perfection table can be in: the fresh table, and what \<^verbatim>\<open>__setitem__\<close> and
  \<^verbatim>\<open>__delitem__\<close> make of a reachable one. Both raise before they write, so a failing call
  leaves the state as it was.
\<close>

inductive perfection_reachable :: "string list \<Rightarrow> 'v perfection_table \<Rightarrow> bool"
  for stats :: "string list" where
  reach_init: "perfection_reachable stats perfection_init"
| reach_set: "perfection_reachable stats t \<Longrightarrow> perfection_setitem stats t key data = Inr t'
     \<Longrightarrow> perfection_reachable stats t'"
| reach_del: "perfection_reachable stats t \<Longrightarrow> perfection_delitem t key = Inr t'
     \<Longrightarrow> perfection_reachable stats t'"

section \<open>hashy\_step\_table.py\<close>

text \<open>
  A slot of the step table is \<^verbatim>\<open>None\<close> (\<open>Empty\<close>), the object \<^verbatim>\<open>self.sentinel\<close> left by a
  delete (\<open>Sentinel\<close>), or a tuple \<^verbatim>\<open>(key, value)\<close> (\<open>Occupied\<close>). The sentinel is a fresh
  \<^verbatim>\<open>object()\<close>: it is equal to nothing but itself, so the three cases are disjoint. The
  object has the attributes \<^verbatim>\<open>TABLE_SIZES\<close>, \<^verbatim>\<open>size_index\<close>, \<^verbatim>\<open>array\<close> and \<^verbatim>\<open>count\<close>.
\<close>

datatype 'v slot = Empty | Sentinel | Occupied string 'v

record 'v step_table =
  TABLE_SIZES :: "nat list"
  size_index :: nat
  array :: "'v slot list"
  count :: int

definition default_TABLE_SIZES :: "nat list" where
  "default_TABLE_SIZES = [5, 13, 29, 53, 97, 193, 389, 769, 1543, 3079, 6151, 12289, 24593,
     49157, 98317, 196613, 393241, 786433, 1572869]"

definition HASH_BASE :: int where
  "HASH_BASE = 31"

text \<open>
  Modelled from the spec: \<^verbatim>\<open>ArrayR\<close> of data\_structures/referential\_array.py, which is not
  among the sources at hand. \<^verbatim>\<open>ArrayR(n)\<close> is "a fresh all-Empty backing store" of \<open>n\<close>
  slots; \<^verbatim>\<open>len\<close> is its length and iteration runs over the slots in order.
\<close>

definition ArrayR :: "nat \<Rightarrow> 'v slot list" where
  "ArrayR n = replicate n Empty"

text \<open>
  \<^verbatim>\<open>__init__(sizes=None)\<close>: the ladder is \<^verbatim>\<open>sizes\<close> when given, the class attribute otherwise;
  \<^verbatim>\<open>self.TABLE_SIZES[0]\<close> raises IndexError on an empty ladder.
\<close>

definition step_init :: "nat list option \<Rightarrow> error + 'v step_table" where
  "step_init sizes =
     (let table_sizes = (case sizes of None \<Rightarrow> default_TABLE_SIZES | Some s \<Rightarrow> s)
      in if table_sizes = [] then Inl IndexError
         else Inr \<lparr>TABLE_SIZES = table_sizes, size_index = 0,
                   array = ArrayR (table_sizes ! 0), count = 0\<rparr>)"

definition table_size :: "'v step_table \<Rightarrow> int" where
  "table_size t = int (length (array t))"

text \<open>
  \<^verbatim>\<open>hash\<close>: the loop over the characters of the key. Python's \<^verbatim>\<open>%\<close> on integers is \<open>mod\<close>
  where the modulus is not 0, and raises ZeroDivisionError where it is 0: first
  \<^verbatim>\<open>% self.table_size\<close>, then \<^verbatim>\<open>% (self.table_size - 1)\<close>.
\<close>

fun hash_loop :: "int \<Rightarrow> string \<Rightarrow> int \<Rightarrow> int \<Rightarrow> error + int" where
  "hash_loop ts [] val a = Inr val"
| "hash_loop ts (c # key) val a =
     (if ts = 0 \<or> ts - 1 = 0 then Inl ZeroDivisionError
      else hash_loop ts key ((py_ord c + a * val) mod ts) (a * HASH_BASE mod (ts - 1)))"

definition step_hash :: "'v step_table \<Rightarrow> string \<Rightarrow> error + int" where
  "step_hash t key = hash_loop (table_size t) key 0 31415"

definition step_hash2 :: "'v step_table \<Rightarrow> string \<Rightarrow> error + int" where
  "step_hash2 t key =
     (case step_hash t key of
        Inl e \<Rightarrow> Inl e
      | Inr h \<Rightarrow>
          if table_size t - 1 = 0 then Inl ZeroDivisionError
          else Inr (1 + (h * 13 + int (length key)) mod (table_size t - 1)))"

text \<open>
  The test \<^verbatim>\<open>self.array[position] != self.sentinel and self.array[position][0] == key\<close> of
  the probe, on a slot that is not \<^verbatim>\<open>None\<close>.
\<close>

fun is_key :: "'v slot \<Rightarrow> string \<Rightarrow> bool" where
  "is_key (Occupied k v) key = (k = key)"
| "is_key Empty key = False"
| "is_key Sentinel key = False"

text \<open>
  \<^verbatim>\<open>_hashy_probe\<close>: the \<^verbatim>\<open>while\<close> loop together with the \<^verbatim>\<open>if\<close> after it. Nothing in the loop
  bounds the number of rounds, so it is a partial function: \<open>None\<close> stands for a loop that
  does not end. Reading \<^verbatim>\<open>self.array[position]\<close> outside the array raises IndexError (the
  positions the hash produces are never negative).
\<close>

partial_function (option) probe_loop ::
  "'v slot list \<Rightarrow> string \<Rightarrow> bool \<Rightarrow> int \<Rightarrow> int \<Rightarrow> int \<Rightarrow> (error + int) option" where
  "probe_loop arr key is_insert step_size initial_position position =
     (if position < 0 \<or> int (length arr) \<le> position then Some (Inl IndexError)
      else if arr ! nat position \<noteq> Empty then
        if is_key (arr ! nat position) key then Some (Inr position)
        else
          let position' = (position + step_size) mod int (length arr) in
          if position' = initial_position then
            (if is_insert then Some (Inl FullError) else Some (Inl KeyError))
          else probe_loop arr key is_insert step_size initial_position position'
      else if is_insert then Some (Inr position)
      else Some (Inl KeyError))"

declare probe_loop.simps [code]

definition hashy_probe :: "'v step_table \<Rightarrow> string \<Rightarrow> bool \<Rightarrow> (error + int) option" where
  "hashy_probe t key is_insert =
     (case step_hash t key of
        Inl e \<Rightarrow> Some (Inl e)
      | Inr position \<Rightarrow>
          (case step_hash2 t key of
             Inl e \<Rightarrow> Some (Inl e)
           | Inr step_size \<Rightarrow> probe_loop (array t) key is_insert step_size position position))"

text \<open>
  \<^verbatim>\<open>__getitem__\<close>: \<^verbatim>\<open>self.array[position][1]\<close>. Subscripting \<^verbatim>\<open>None\<close> or the sentinel would be
  a TypeError; the probe returns no such position when it looks up.
\<close>

definition step_getitem :: "'v step_table \<Rightarrow> string \<Rightarrow> (error + 'v) option" where
  "step_getitem t key =
     (case hashy_probe t key False of
        None \<Rightarrow> None
      | Some (Inl e) \<Rightarrow> Some (Inl e)
      | Some (Inr position) \<Rightarrow>
          (case array t ! nat position of
             Occupied k v \<Rightarrow> Some (Inr v)
           | _ \<Rightarrow> Some (Inl TypeError)))"

text \<open>
  \<^verbatim>\<open>__setitem__\<close>, \<^verbatim>\<open>_rehash\<close> and the \<^verbatim>\<open>for\<close> loop of \<^verbatim>\<open>_rehash\<close>, which call one another. The
  methods mutate the object and may then raise, so each returns the state it leaves
  together with the exception, if any. The test \<^verbatim>\<open>len(self) > self.table_size * 2 / 3\<close>
  compares an integer with the float nearest to two thirds of the capacity; for every
  capacity below \<open>2 ^ 52\<close> that is the integer test \<open>table_size * 2 < 3 * count\<close>.
  In \<^verbatim>\<open>_rehash\<close>, \<open>size_index\<close> is incremented before the ladder is checked, and
  \<^verbatim>\<open>self[key] = value\<close> in the loop is \<^verbatim>\<open>__setitem__\<close> on the new array.
\<close>

function step_setitem ::
    "'v step_table \<Rightarrow> string \<Rightarrow> 'v \<Rightarrow> (error option \<times> 'v step_table) option"
  and step_rehash :: "'v step_table \<Rightarrow> (error option \<times> 'v step_table) option"
  and rehash_loop ::
    "'v step_table \<Rightarrow> 'v slot list \<Rightarrow> (error option \<times> 'v step_table) option"
where
  "step_setitem t key data =
     (case hashy_probe t key True of
        None \<Rightarrow> None
      | Some (Inl e) \<Rightarrow> Some (Some e, t)
      | Some (Inr position) \<Rightarrow>
          (let t1 = (if array t ! nat position = Empty then t\<lparr>count := count t + 1\<rparr> else t);
               t2 = t1\<lparr>array := (array t1)[nat position := Occupied key data]\<rparr>
           in if table_size t2 * 2 < 3 * count t2 then step_rehash t2 else Some (None, t2)))"
| "step_rehash t =
     (let old_array = array t;
          t1 = t\<lparr>size_index := size_index t + 1\<rparr>
      in if length (TABLE_SIZES t1) \<le> size_index t1 then Some (Some FullError, t1)
         else rehash_loop (t1\<lparr>array := ArrayR (TABLE_SIZES t1 ! size_index t1), count := 0\<rparr>)
                old_array)"
| "rehash_loop t [] = Some (None, t)"
| "rehash_loop t (item # items) =
     (case item of
        Occupied key val \<Rightarrow>
          (case step_setitem t key val of
             None \<Rightarrow> None
           | Some (Some e, t') \<Rightarrow> Some (Some e, t')
           | Some (None, t') \<Rightarrow> rehash_loop t' items)
      | _ \<Rightarrow> rehash_loop t items)"
  by pat_completeness auto

text \<open>
  Termination: the calls nest (the loop goes on from the state a set has left), so the
  measure needs that a set never lowers \<open>size_index\<close> and never changes the ladder.
\<close>

lemma step_mono_dom:
  "step_setitem_step_rehash_rehash_loop_dom (Inl (t, key, data)) \<Longrightarrow>
     step_setitem t key data = Some (r, t') \<Longrightarrow>
     TABLE_SIZES t' = TABLE_SIZES t \<and> size_index t \<le> size_index t'"
  "step_setitem_step_rehash_rehash_loop_dom (Inr (Inl t)) \<Longrightarrow>
     step_rehash t = Some (r, t') \<Longrightarrow>
     TABLE_SIZES t' = TABLE_SIZES t \<and> size_index t < size_index t'"
  "step_setitem_step_rehash_rehash_loop_dom (Inr (Inr (t, items))) \<Longrightarrow>
     rehash_loop t items = Some (r, t') \<Longrightarrow>
     TABLE_SIZES t' = TABLE_SIZES t \<and> size_index t \<le> size_index t'"
proof (induct arbitrary: r t' and r t' and r t' rule: step_setitem_step_rehash_rehash_loop.pinduct)
  case (1 t key data)
  show ?case
  proof (cases "hashy_probe t key True")
    case None
    with "1.prems" "1.hyps"(1) show ?thesis by (simp add: step_setitem.psimps)
  next
    case (Some res)
    show ?thesis
    proof (cases res)
      case (Inl e)
      with Some "1.prems" "1.hyps"(1) show ?thesis by (simp add: step_setitem.psimps)
    next
      case (Inr position)
      define t1 where "t1 = (if array t ! nat position = Empty then t\<lparr>count := count t + 1\<rparr> else t)"
      define t2 where "t2 = t1\<lparr>array := (array t1)[nat position := Occupied key data]\<rparr>"
      have same: "TABLE_SIZES t2 = TABLE_SIZES t" "size_index t2 = size_index t"
        by (simp_all add: t1_def t2_def)
      show ?thesis
      proof (cases "table_size t2 * 2 < 3 * count t2")
        case True
        with Some Inr "1.prems" "1.hyps"(1) have "step_rehash t2 = Some (r, t')"
          by (simp add: step_setitem.psimps t1_def t2_def Let_def)
        from "1.hyps"(2) [OF Some Inr t1_def t2_def True this] same
        show ?thesis by simp
      next
        case False
        with Some Inr "1.prems" "1.hyps"(1) have "t' = t2"
          by (simp add: step_setitem.psimps t1_def t2_def Let_def)
        with same show ?thesis by simp
      qed
    qed
  qed
next
  case (2 t)
  define t1 where "t1 = t\<lparr>size_index := size_index t + 1\<rparr>"
  show ?case
  proof (cases "length (TABLE_SIZES t1) \<le> size_index t1")
    case True
    with "2.prems" "2.hyps"(1) show ?thesis
      by (auto simp: step_rehash.psimps t1_def Let_def)
  next
    case False
    with "2.prems" "2.hyps"(1) have
      "rehash_loop (t1\<lparr>array := ArrayR (TABLE_SIZES t1 ! size_index t1), count := 0\<rparr>) (array t)
         = Some (r, t')"
      by (simp add: step_rehash.psimps t1_def Let_def)
    from "2.hyps"(2) [OF refl t1_def False this] show ?thesis
      by (simp add: t1_def)
  qed
next
  case (3 t)
  then show ?case by (simp add: rehash_loop.psimps)
next
  case (4 t item items)
  show ?case
  proof (cases item)
    case Empty
    with "4.prems" "4.hyps"(1) have "rehash_loop t items = Some (r, t')"
      by (simp add: rehash_loop.psimps)
    from "4.hyps"(2) [OF Empty this] show ?thesis .
  next
    case Sentinel
    with "4.prems" "4.hyps"(1) have "rehash_loop t items = Some (r, t')"
      by (simp add: rehash_loop.psimps)
    from "4.hyps"(3) [OF Sentinel this] show ?thesis .
  next
    case (Occupied k v)
    show ?thesis
    proof (cases "step_setitem t k v")
      case None
      with Occupied "4.prems" "4.hyps"(1) show ?thesis by (simp add: rehash_loop.psimps)
    next
      case (Some res)
      obtain r1 t1 where res: "res = (r1, t1)" by (cases res)
      from "4.hyps"(4) [OF Occupied Some [unfolded res]]
      have m1: "TABLE_SIZES t1 = TABLE_SIZES t \<and> size_index t \<le> size_index t1" .
      show ?thesis
      proof (cases r1)
        case None
        with Occupied Some res "4.prems" "4.hyps"(1) have "rehash_loop t1 items = Some (r, t')"
          by (simp add: rehash_loop.psimps)
        from "4.hyps"(5) [OF Occupied Some [unfolded res] refl None this] m1
        show ?thesis by simp
      next
        case (Some e)
        with Occupied \<open>step_setitem t k v = Some res\<close> res "4.prems" "4.hyps"(1) have "t' = t1"
          by (simp add: rehash_loop.psimps)
        with m1 show ?thesis by simp
      qed
    qed
  qed
qed

termination step_setitem
  apply (relation "measures
    [\<lambda>x. case x of
       Inl (t, key, data) \<Rightarrow> length (TABLE_SIZES t) + 1 - size_index t
     | Inr (Inl t) \<Rightarrow> length (TABLE_SIZES t) + 1 - size_index t
     | Inr (Inr (t, items)) \<Rightarrow> length (TABLE_SIZES t) + 1 - size_index t,
     \<lambda>x. case x of Inl _ \<Rightarrow> 1 | Inr (Inl _) \<Rightarrow> 0 | Inr (Inr _) \<Rightarrow> 2,
     \<lambda>x. case x of Inr (Inr (t, items)) \<Rightarrow> length items | _ \<Rightarrow> 0]")
  apply simp_all
  subgoal for t item k v x2 x y
    using step_mono_dom(1) [of t k v None y] by auto
  done



text \<open>
  Two states named for the proofs: the table after lines 222 to 225 of \<^verbatim>\<open>__setitem__\<close>
  (count updated, the tuple written to the probed slot), and the table after lines 273 to
  280 of \<^verbatim>\<open>_rehash\<close> when the ladder is not exhausted (next size, fresh array, count 0).
\<close>

definition write_slot :: "'v step_table \<Rightarrow> int \<Rightarrow> string \<Rightarrow> 'v \<Rightarrow> 'v step_table" where
  "write_slot t position key data =
     (let t1 = (if array t ! nat position = Empty then t\<lparr>count := count t + 1\<rparr> else t)
      in t1\<lparr>array := (array t1)[nat position := Occupied key data]\<rparr>)"

definition grow :: "'v step_table \<Rightarrow> 'v step_table" where
  "grow t = t\<lparr>size_index := size_index t + 1,
              array := ArrayR (TABLE_SIZES t ! (size_index t + 1)), count := 0\<rparr>"

text \<open>\<^verbatim>\<open>__len__\<close>, \<^verbatim>\<open>__delitem__\<close>, \<^verbatim>\<open>keys\<close> and \<^verbatim>\<open>values\<close> of the step table.\<close>

definition step_len :: "'v step_table \<Rightarrow> int" where
  "step_len t = count t"

definition step_delitem ::
  "'v step_table \<Rightarrow> string \<Rightarrow> (error option \<times> 'v step_table) option" where
  "step_delitem t key =
     (case hashy_probe t key False of
        None \<Rightarrow> None
      | Some (Inl e) \<Rightarrow> Some (Some e, t)
      | Some (Inr position) \<Rightarrow>
          if array t ! nat position = Empty \<or> array t ! nat position = Sentinel
          then Some (Some KeyError, t)
          else Some (None, t\<lparr>array := (array t)[nat position := Sentinel],
                             count := count t - 1\<rparr>))"

text \<open>
  \<^verbatim>\<open>keys\<close> and \<^verbatim>\<open>values\<close> subscript every slot that is not \<^verbatim>\<open>None\<close>; on the sentinel, a
  plain \<^verbatim>\<open>object()\<close>, the subscript raises TypeError.
\<close>

fun step_keys_loop :: "'v slot list \<Rightarrow> nat list \<Rightarrow> string list \<Rightarrow> error + string list" where
  "step_keys_loop arr [] res = Inr res"
| "step_keys_loop arr (x # xs) res =
     (case arr ! x of
        Empty \<Rightarrow> step_keys_loop arr xs res
      | Sentinel \<Rightarrow> Inl TypeError
      | Occupied k v \<Rightarrow> step_keys_loop arr xs (res @ [k]))"

definition step_keys :: "'v step_table \<Rightarrow> error + string list" where
  "step_keys t = step_keys_loop (array t) [0..<nat (table_size t)] []"

fun step_values_loop :: "'v slot list \<Rightarrow> nat list \<Rightarrow> 'v list \<Rightarrow> error + 'v list" where
  "step_values_loop arr [] res = Inr res"
| "step_values_loop arr (x # xs) res =
     (case arr ! x of
        Empty \<Rightarrow> step_values_loop arr xs res
      | Sentinel \<Rightarrow> Inl TypeError
      | Occupied k v \<Rightarrow> step_values_loop arr xs (res @ [v]))"

definition step_values :: "'v step_table \<Rightarrow> error + 'v list" where
  "step_values t = step_values_loop (array t) [0..<nat (table_size t)] []"

text \<open>
  The states a step table can be in: what \<^verbatim>\<open>__init__\<close> builds, and the state a
  \<^verbatim>\<open>__setitem__\<close> or \<^verbatim>\<open>__delitem__\<close> leaves on a reachable one, whether the call has raised
  or not.
\<close>

inductive step_reachable :: "'v step_table \<Rightarrow> bool" where
  step_reach_init: "step_init sizes = Inr t \<Longrightarrow> step_reachable t"
| step_reach_set: "step_reachable t \<Longrightarrow> step_setitem t key data = Some (r, t')
     \<Longrightarrow> step_reachable t'"
| step_reach_del: "step_reachable t \<Longrightarrow> step_delitem t key = Some (r, t')
     \<Longrightarrow> step_reachable t'"

text \<open>
  The two invariants of the reachable states: every stored key is found, at its own slot,
  by its own lookup probe; and count is the number of Occupied slots.
\<close>

fun is_occupied :: "'v slot \<Rightarrow> bool" where
  "is_occupied (Occupied k v) = True"
| "is_occupied Empty = False"
| "is_occupied Sentinel = False"

definition lookup_inv :: "'v step_table \<Rightarrow> bool" where
  "lookup_inv t \<longleftrightarrow>
     (\<forall>q k v. q < length (array t) \<and> array t ! q = Occupied k v
        \<longrightarrow> hashy_probe t k False = Some (Inr (int q)))"

definition count_inv :: "'v step_table \<Rightarrow> bool" where
  "count_inv t \<longleftrightarrow> count t = int (length (filter is_occupied (array t)))"

text \<open>Primality of a capacity, and the positions a probe visits, by the loop's own update.\<close>

definition is_prime :: "nat \<Rightarrow> bool" where
  "is_prime p \<longleftrightarrow> 1 < p \<and> (\<forall>m \<in> {2..<p}. \<not> m dvd p)"


text \<open>Concrete tables, used where a statement is evaluated.\<close>

definition T5 :: "nat step_table" where
  "T5 = \<lparr>TABLE_SIZES = [5, 13], size_index = 0, array = replicate 5 Empty, count = 0\<rparr>"

text \<open>
  A client of the step table: a sequence of \<^verbatim>\<open>t[k] = v\<close> and \<^verbatim>\<open>del t[k]\<close> statements, each in a
  \<^verbatim>\<open>try\<close> that swallows the exception; \<open>calls\<close> is the state of the table afterwards.
\<close>

datatype 'v call = Set string 'v | Del string

fun calls :: "'v step_table \<Rightarrow> 'v call list \<Rightarrow> 'v step_table option" where
  "calls t [] = Some t"
| "calls t (Set k v # cs) =
     (case step_setitem t k v of None \<Rightarrow> None | Some (r, t') \<Rightarrow> calls t' cs)"
| "calls t (Del k # cs) =
     (case step_delitem t k of None \<Rightarrow> None | Some (r, t') \<Rightarrow> calls t' cs)"

definition T_tombstones :: "nat step_table" where
  "T_tombstones = \<lparr>TABLE_SIZES = [5, 13], size_index = 0,
     array = [Sentinel, Sentinel, Sentinel, Sentinel, Sentinel], count = 0\<rparr>"

definition T_deleted :: "nat step_table" where
  "T_deleted = \<lparr>TABLE_SIZES = [5, 13], size_index = 0,
     array = [Empty, Empty, Sentinel, Empty, Empty], count = 0\<rparr>"

definition P_Goals :: "nat perfection_table" where
  "P_Goals = \<lparr>parray = [None, None, None, None, None, None, None, None, None, None, None,
                          Some (''Goals'', 3), None], pcount = 1\<rparr>"

definition T_three :: "nat step_table" where
  "T_three = \<lparr>TABLE_SIZES = [5], size_index = 0,
     array = [Empty, Empty, Occupied ''a'' 1, Occupied ''b'' 2, Occupied ''c'' 3], count = 3\<rparr>"

definition T_four :: "nat step_table" where
  "T_four = \<lparr>TABLE_SIZES = [5], size_index = 1,
     array = [Occupied ''d'' 4, Empty, Occupied ''a'' 1, Occupied ''b'' 2, Occupied ''c'' 3],
     count = 4\<rparr>"

text \<open>The (key, value) tuples of an array, in slot order.\<close>

fun entries :: "'v slot list \<Rightarrow> (string \<times> 'v) list" where
  "entries [] = []"
| "entries (Occupied k v # xs) = (k, v) # entries xs"
| "entries (Empty # xs) = entries xs"
| "entries (Sentinel # xs) = entries xs"

definition tidy :: "'v step_table \<Rightarrow> bool" where
  "tidy t \<longleftrightarrow> lookup_inv t \<and> count_inv t \<and> Sentinel \<notin> set (array t)"

section \<open>Properties of the perfection table\<close>

lemma perfection_reachable_size:
  "perfection_reachable stats t \<Longrightarrow> length (parray t) = 13"
proof (induction rule: perfection_reachable.induct)
  case reach_init
  show ?case by (simp add: perfection_init_def)
next
  case (reach_set t key data t')
  then show ?case
    by (auto simp: perfection_setitem_def Let_def split: sum.splits if_splits)
next
  case (reach_del t key t')
  then show ?case
    by (auto simp: perfection_delitem_def split: sum.splits)
qed

lemma replicate_update_same: "(replicate n x)[i := x] = replicate n x"
  by (induction n arbitrary: i) (auto split: nat.splits)

lemma perfection_hash_range:
  assumes "perfection_hash t key = Inr position"
  shows "0 \<le> position \<and> position < int (length (parray t))"
proof -
  from assms have "key \<noteq> []" and sz: "perfection_table_size t \<noteq> 0"
    by (auto simp: perfection_hash_def split: if_splits)
  from sz have pos: "0 < perfection_table_size t"
    by (simp add: perfection_table_size_def)
  from assms \<open>key \<noteq> []\<close> sz obtain x where "position = x mod perfection_table_size t"
    by (auto simp: perfection_hash_def)
  with pos show ?thesis
    by (simp add: perfection_table_size_def)
qed

text \<open>
  C10. On the empty key, \<^verbatim>\<open>hash\<close> of the perfection table fails with the string-index error,
  and \<^verbatim>\<open>__delitem__\<close>, which calls it unguarded, fails the same way: neither its own
  KeyError for an absent key nor the KeyError of \<^verbatim>\<open>_is_valid_key\<close> is raised.
\<close>

theorem perfection_delitem_empty_key:
  "perfection_hash t [] = Inl IndexError \<and> perfection_delitem t [] = Inl IndexError"
  by (simp add: perfection_hash_def perfection_delitem_def)

text \<open>
  C6. On a non-empty key, \<^verbatim>\<open>__delitem__\<close> of the perfection table never raises: whatever the
  hashed slot holds, it is set to \<^verbatim>\<open>None\<close> and count goes down by one. In particular the
  delete of a key from the fresh table, where every slot is \<^verbatim>\<open>None\<close>, succeeds and leaves
  count at -1.
\<close>

theorem perfection_delitem_unconditional:
  assumes "key \<noteq> []" and "perfection_reachable stats t"
  shows "(\<exists>position. perfection_hash t key = Inr position \<and> 0 \<le> position \<and> position < 13
            \<and> perfection_delitem t key
                = Inr (t\<lparr>parray := (parray t)[nat position := None], pcount := pcount t - 1\<rparr>))
         \<and> (\<exists>t'. perfection_delitem (perfection_init :: 'v perfection_table) key = Inr t'
                \<and> parray t' = parray (perfection_init :: 'v perfection_table) \<and> pcount t' = - 1)"
proof -
  have len: "length (parray t) = 13"
    using assms(2) by (rule perfection_reachable_size)
  then obtain position where h: "perfection_hash t key = Inr position"
    using assms(1) by (simp add: perfection_hash_def perfection_table_size_def)
  have rng: "0 \<le> position \<and> position < 13"
    using perfection_hash_range [OF h] len by simp
  have first: "\<exists>position. perfection_hash t key = Inr position \<and> 0 \<le> position \<and> position < 13
            \<and> perfection_delitem t key
                = Inr (t\<lparr>parray := (parray t)[nat position := None], pcount := pcount t - 1\<rparr>)"
    using h rng by (auto simp: perfection_delitem_def)
  obtain p0 where h0: "perfection_hash (perfection_init :: 'v perfection_table) key = Inr p0"
    using assms(1) by (simp add: perfection_hash_def perfection_table_size_def perfection_init_def)
  have "(parray (perfection_init :: 'v perfection_table))[nat p0 := None]
          = parray (perfection_init :: 'v perfection_table)"
    by (simp add: perfection_init_def replicate_update_same)
  then have second: "\<exists>t'. perfection_delitem (perfection_init :: 'v perfection_table) key = Inr t'
                \<and> parray t' = parray (perfection_init :: 'v perfection_table) \<and> pcount t' = - 1"
    using h0 by (simp add: perfection_delitem_def perfection_init_def)
  from first second show ?thesis by blast
qed

theorem perfection_delitem_unconditional_witness:
  "perfection_delitem (perfection_init :: nat perfection_table) ''Goals''
     = Inr \<lparr>parray = replicate 13 None, pcount = - 1\<rparr>"
proof -
  have ne: "''Goals'' \<noteq> []" by simp
  have re: "perfection_reachable [''Goals''] (perfection_init :: nat perfection_table)"
    by (rule reach_init)
  from perfection_delitem_unconditional [OF ne re]
  obtain t' where "perfection_delitem (perfection_init :: nat perfection_table) ''Goals'' = Inr t'"
    and "parray t' = parray (perfection_init :: nat perfection_table)" and "pcount t' = - 1"
    by blast
  then show ?thesis
    by (cases t') (simp add: perfection_init_def)
qed

section \<open>Properties of the step table\<close>

lemma hash_loop_range:
  "2 \<le> ts \<Longrightarrow> 0 \<le> val \<Longrightarrow> val < ts \<Longrightarrow> \<exists>h. hash_loop ts key val a = Inr h \<and> 0 \<le> h \<and> h < ts"
  by (induction key arbitrary: val a) auto

lemma step_hash_range:
  "2 \<le> table_size t \<Longrightarrow> \<exists>h. step_hash t key = Inr h \<and> 0 \<le> h \<and> h < table_size t"
  unfolding step_hash_def by (rule hash_loop_range) auto

lemma step_hash2_range:
  assumes "2 \<le> table_size t"
  shows "\<exists>s. step_hash2 t key = Inr s \<and> 1 \<le> s \<and> s \<le> table_size t - 1"
proof -
  from step_hash_range [OF assms] obtain h where h: "step_hash t key = Inr h" by blast
  have "0 < table_size t - 1" using assms by simp
  then have "0 \<le> (h * 13 + int (length key)) mod (table_size t - 1)"
    and "(h * 13 + int (length key)) mod (table_size t - 1) < table_size t - 1"
    by simp_all
  with h assms show ?thesis by (simp add: step_hash2_def)
qed

lemma probe_loop_terminates:
  fixes arr :: "'v slot list"
  assumes "0 \<le> init" and "init < int (length arr)"
  shows "k < length arr \<Longrightarrow>
    \<exists>r. probe_loop arr key ins step init ((init + int k * step) mod int (length arr)) = Some r"
proof (induction m \<equiv> "length arr - k" arbitrary: k)
  case 0
  then show ?case by simp
next
  case (Suc m)
  let ?n = "int (length arr)"
  let ?pos = "(init + int k * step) mod ?n"
  have n: "0 < ?n" using Suc.prems by auto
  then have rng: "0 \<le> ?pos" "?pos < ?n" by simp_all
  have "(?pos + step) mod ?n = ((init + int k * step) + step) mod ?n"
    by (rule mod_add_left_eq)
  also have "\<dots> = (init + int (Suc k) * step) mod ?n"
    by (simp add: algebra_simps)
  finally have nxt: "(?pos + step) mod ?n = (init + int (Suc k) * step) mod ?n" .
  show ?case
  proof (cases "Suc k < length arr")
    case True
    moreover from Suc.hyps(2) have "m = length arr - Suc k" by simp
    ultimately obtain r where
      "probe_loop arr key ins step init ((init + int (Suc k) * step) mod ?n) = Some r"
      using Suc.hyps(1) by blast
    then show ?thesis
      using rng nxt by (subst probe_loop.simps) (simp add: Let_def)
  next
    case False
    with Suc.prems have "int (Suc k) = ?n" by simp
    then have "(init + int (Suc k) * step) mod ?n = init"
      using assms by simp
    then show ?thesis
      using rng nxt by (subst probe_loop.simps) (simp add: Let_def)
  qed
qed

lemma hash_loop_cases:
  "hash_loop ts key val a = Inl e \<Longrightarrow> e = ZeroDivisionError"
  by (induction key arbitrary: val a) (auto split: if_splits)

lemma hashy_probe_terminates: "\<exists>r. hashy_probe t key ins = Some r"
proof (cases "2 \<le> table_size t")
  case True
  from step_hash_range [OF True] obtain h where
    h: "step_hash t key = Inr h" "0 \<le> h" "h < table_size t" by blast
  from step_hash2_range [OF True] obtain s where s: "step_hash2 t key = Inr s" by blast
  have "0 < length (array t)" using True by (auto simp: table_size_def)
  from probe_loop_terminates [OF h(2) h(3) [unfolded table_size_def] this, of key ins s]
  show ?thesis using h s by (simp add: hashy_probe_def table_size_def)
next
  case False
  show ?thesis
  proof (cases "step_hash t key")
    case (Inl e)
    then show ?thesis by (simp add: hashy_probe_def)
  next
    case (Inr h)
    show ?thesis
    proof (cases "step_hash2 t key")
      case (Inl e)
      with Inr show ?thesis by (simp add: hashy_probe_def)
    next
      case (Inr s)
      with \<open>step_hash t key = Inr h\<close> have ts: "table_size t \<noteq> 1"
        by (auto simp: step_hash2_def split: if_splits)
      with False have "length (array t) = 0" unfolding table_size_def by linarith
      then have "probe_loop (array t) key ins s h h = Some (Inl IndexError)"
        by (subst probe_loop.simps) auto
      with Inr \<open>step_hash t key = Inr h\<close> show ?thesis by (simp add: hashy_probe_def)
    qed
  qed
qed


lemma step_setitem_unfold:
  "step_setitem t key data =
     (case hashy_probe t key True of
        None \<Rightarrow> None
      | Some (Inl e) \<Rightarrow> Some (Some e, t)
      | Some (Inr position) \<Rightarrow>
          if table_size (write_slot t position key data) * 2
               < 3 * count (write_slot t position key data)
          then step_rehash (write_slot t position key data)
          else Some (None, write_slot t position key data))"
  by (simp add: write_slot_def Let_def split: option.splits sum.splits)

lemma step_rehash_unfold:
  "step_rehash t =
     (if length (TABLE_SIZES t) \<le> size_index t + 1
      then Some (Some FullError, t\<lparr>size_index := size_index t + 1\<rparr>)
      else rehash_loop (grow t) (array t))"
  by (simp add: grow_def Let_def)

lemma rehash_loop_Cons:
  "rehash_loop t (Empty # items) = rehash_loop t items"
  "rehash_loop t (Sentinel # items) = rehash_loop t items"
  "rehash_loop t (Occupied k v # items) =
     (case step_setitem t k v of
        None \<Rightarrow> None
      | Some (Some e, t') \<Rightarrow> Some (Some e, t')
      | Some (None, t') \<Rightarrow> rehash_loop t' items)"
  by simp_all

declare step_setitem.simps [simp del] step_rehash.simps [simp del] rehash_loop.simps(2) [simp del]

lemma step_induct [case_names setitem rehash loop_Nil loop_skip loop_Occupied]:
  fixes P :: "'v step_table \<Rightarrow> string \<Rightarrow> 'v \<Rightarrow> bool"
  assumes "\<And>t key data.
      (\<And>position. hashy_probe t key True = Some (Inr position) \<Longrightarrow>
         table_size (write_slot t position key data) * 2
           < 3 * count (write_slot t position key data) \<Longrightarrow>
         Q (write_slot t position key data)) \<Longrightarrow> P t key data"
    and "\<And>t. (\<not> length (TABLE_SIZES t) \<le> size_index t + 1 \<Longrightarrow> R (grow t) (array t)) \<Longrightarrow> Q t"
    and "\<And>t. R t []"
    and "\<And>t item items. item = Empty \<or> item = Sentinel \<Longrightarrow> R t items \<Longrightarrow> R t (item # items)"
    and "\<And>t k v items. P t k v \<Longrightarrow>
      (\<And>t'. step_setitem t k v = Some (None, t') \<Longrightarrow> R t' items) \<Longrightarrow>
      R t (Occupied k v # items)"
  shows "P t key data" and "Q t" and "R t items"
proof (induct t key data and t and t items rule: step_setitem_step_rehash_rehash_loop.induct)
  case (1 t key data)
  show ?case
  proof (rule assms(1))
    fix position
    assume "hashy_probe t key True = Some (Inr position)"
      and "table_size (write_slot t position key data) * 2
             < 3 * count (write_slot t position key data)"
    then show "Q (write_slot t position key data)"
      using "1" [of "Inr position" position] by (simp add: write_slot_def Let_def)
  qed
next
  case (2 t)
  show ?case
  proof (rule assms(2))
    assume "\<not> length (TABLE_SIZES t) \<le> size_index t + 1"
    then show "R (grow t) (array t)"
      using "2" [OF refl refl] by (simp add: grow_def)
  qed
next
  case (3 t)
  show ?case by (rule assms(3))
next
  case (4 t item items)
  show ?case
  proof (cases item)
    case Empty
    with "4"(1) show ?thesis by (auto intro: assms(4))
  next
    case Sentinel
    with "4"(2) show ?thesis by (auto intro: assms(4))
  next
    case (Occupied k v)
    show ?thesis unfolding Occupied
    proof (rule assms(5))
      show "P t k v" using "4"(3) Occupied by simp
    next
      fix t'
      assume "step_setitem t k v = Some (None, t')"
      then show "R t' items" using "4"(4) [OF Occupied _ refl refl] by simp
    qed
  qed
qed


subsection \<open>probe loop\<close>

lemma probe_loop_range:
  "pos < 0 \<or> int (length arr) \<le> pos \<Longrightarrow>
   probe_loop arr key ins step init pos = Some (Inl IndexError)"
  by (subst probe_loop.simps) simp

lemma probe_loop_empty:
  "0 \<le> pos \<Longrightarrow> pos < int (length arr) \<Longrightarrow> arr ! nat pos = Empty \<Longrightarrow>
   probe_loop arr key ins step init pos = Some (if ins then Inr pos else Inl KeyError)"
  by (subst probe_loop.simps) simp

lemma probe_loop_found:
  "0 \<le> pos \<Longrightarrow> pos < int (length arr) \<Longrightarrow> is_key (arr ! nat pos) key \<Longrightarrow>
   probe_loop arr key ins step init pos = Some (Inr pos)"
  by (subst probe_loop.simps) auto

lemma probe_loop_back:
  "0 \<le> pos \<Longrightarrow> pos < int (length arr) \<Longrightarrow> arr ! nat pos \<noteq> Empty \<Longrightarrow>
   \<not> is_key (arr ! nat pos) key \<Longrightarrow> (pos + step) mod int (length arr) = init \<Longrightarrow>
   probe_loop arr key ins step init pos = Some (Inl (if ins then FullError else KeyError))"
  by (subst probe_loop.simps) (simp add: Let_def)

lemma probe_loop_next:
  "0 \<le> pos \<Longrightarrow> pos < int (length arr) \<Longrightarrow> arr ! nat pos \<noteq> Empty \<Longrightarrow>
   \<not> is_key (arr ! nat pos) key \<Longrightarrow> (pos + step) mod int (length arr) \<noteq> init \<Longrightarrow>
   probe_loop arr key ins step init pos
     = probe_loop arr key ins step init ((pos + step) mod int (length arr))"
  by (subst probe_loop.simps) (simp add: Let_def)

lemma probe_body_cases [consumes 1, case_names out_of_range found wrapped advance empty]:
  assumes "(if pos < 0 \<or> int (length arr) \<le> pos then Some (Inl IndexError)
      else if arr ! nat pos \<noteq> Empty then
        if is_key (arr ! nat pos) key then Some (Inr pos)
        else
          let position' = (pos + step) mod int (length arr) in
          if position' = init then
            (if ins then Some (Inl FullError) else Some (Inl KeyError))
          else f arr key ins step init position'
      else if ins then Some (Inr pos)
      else Some (Inl KeyError)) = Some r"
  obtains "pos < 0 \<or> int (length arr) \<le> pos" and "r = Inl IndexError"
  | "0 \<le> pos" and "pos < int (length arr)" and "is_key (arr ! nat pos) key" and "r = Inr pos"
  | "0 \<le> pos" and "pos < int (length arr)" and "arr ! nat pos \<noteq> Empty"
      and "\<not> is_key (arr ! nat pos) key" and "(pos + step) mod int (length arr) = init"
      and "r = Inl (if ins then FullError else KeyError)"
  | "0 \<le> pos" and "pos < int (length arr)" and "arr ! nat pos \<noteq> Empty"
      and "\<not> is_key (arr ! nat pos) key" and "(pos + step) mod int (length arr) \<noteq> init"
      and "f arr key ins step init ((pos + step) mod int (length arr)) = Some r"
  | "0 \<le> pos" and "pos < int (length arr)" and "arr ! nat pos = Empty"
      and "r = (if ins then Inr pos else Inl KeyError)"
proof (cases "pos < 0 \<or> int (length arr) \<le> pos")
  case True
  with assms that(1) show ?thesis by simp
next
  case rng: False
  show ?thesis
  proof (cases "arr ! nat pos = Empty")
    case True
    with rng assms that(5) show ?thesis by (simp split: if_splits)
  next
    case ne: False
    show ?thesis
    proof (cases "is_key (arr ! nat pos) key")
      case True
      with rng ne assms that(2) show ?thesis by simp
    next
      case nk: False
      show ?thesis
      proof (cases "(pos + step) mod int (length arr) = init")
        case True
        with rng ne nk assms that(3) show ?thesis by (simp add: Let_def split: if_splits)
      next
        case False
        with rng ne nk assms that(4) show ?thesis by (simp add: Let_def)
      qed
    qed
  qed
qed

lemma probe_loop_induct [consumes 1, case_names out_of_range found wrapped advance empty]:
  fixes arr :: "'v slot list"
  assumes run: "probe_loop arr key ins step init pos = Some r"
    and out_of_range: "\<And>pos. pos < 0 \<or> int (length arr) \<le> pos \<Longrightarrow> P pos (Inl IndexError)"
    and found: "\<And>pos. 0 \<le> pos \<Longrightarrow> pos < int (length arr) \<Longrightarrow> is_key (arr ! nat pos) key \<Longrightarrow>
       P pos (Inr pos)"
    and wrapped: "\<And>pos. 0 \<le> pos \<Longrightarrow> pos < int (length arr) \<Longrightarrow> arr ! nat pos \<noteq> Empty \<Longrightarrow>
       \<not> is_key (arr ! nat pos) key \<Longrightarrow> (pos + step) mod int (length arr) = init \<Longrightarrow>
       P pos (Inl (if ins then FullError else KeyError))"
    and advance: "\<And>pos r. 0 \<le> pos \<Longrightarrow> pos < int (length arr) \<Longrightarrow> arr ! nat pos \<noteq> Empty \<Longrightarrow>
       \<not> is_key (arr ! nat pos) key \<Longrightarrow> (pos + step) mod int (length arr) \<noteq> init \<Longrightarrow>
       probe_loop arr key ins step init ((pos + step) mod int (length arr)) = Some r \<Longrightarrow>
       P ((pos + step) mod int (length arr)) r \<Longrightarrow> P pos r"
    and empty: "\<And>pos. 0 \<le> pos \<Longrightarrow> pos < int (length arr) \<Longrightarrow> arr ! nat pos = Empty \<Longrightarrow>
       P pos (if ins then Inr pos else Inl KeyError)"
  shows "P pos r"
proof -
  let ?Q = "\<lambda>arr' key' ins' step' init' pos r.
    arr' = arr \<and> key' = key \<and> ins' = ins \<and> step' = step \<and> init' = init \<longrightarrow>
      probe_loop arr key ins step init pos = Some r \<and> P pos r"
  have "?Q arr key ins step init pos r"
  proof (rule probe_loop.raw_induct [where P = ?Q, OF _ run])
    fix f :: "'v slot list \<Rightarrow> string \<Rightarrow> bool \<Rightarrow> int \<Rightarrow> int \<Rightarrow> int \<Rightarrow> (error + int) option"
      and arr' key' ins' step' init' pos r
    assume IH: "\<And>arr' key' ins' step' init' pos r. f arr' key' ins' step' init' pos = Some r \<Longrightarrow>
      ?Q arr' key' ins' step' init' pos r"
    assume body: "(if pos < 0 \<or> int (length arr') \<le> pos then Some (Inl IndexError)
      else if arr' ! nat pos \<noteq> Empty then
        if is_key (arr' ! nat pos) key' then Some (Inr pos)
        else
          let position' = (pos + step') mod int (length arr') in
          if position' = init' then
            (if ins' then Some (Inl FullError) else Some (Inl KeyError))
          else f arr' key' ins' step' init' position'
      else if ins' then Some (Inr pos)
      else Some (Inl KeyError)) = Some r"
    show "?Q arr' key' ins' step' init' pos r"
    proof (intro impI)
      assume eq: "arr' = arr \<and> key' = key \<and> ins' = ins \<and> step' = step \<and> init' = init"
      then have e: "arr' = arr" "key' = key" "ins' = ins" "step' = step" "init' = init"
        by blast+
      note body' = body [unfolded e]
      have IH': "probe_loop arr key ins step init q = Some r' \<and> P q r'"
        if "f arr key ins step init q = Some r'" for q r'
        using IH [OF that] by blast
      from body' show "probe_loop arr key ins step init pos = Some r \<and> P pos r"
      proof (cases rule: probe_body_cases)
        case out_of_range
        from probe_loop_range [OF out_of_range(1)] assms(2) [OF out_of_range(1)]
        show ?thesis unfolding out_of_range(2) by blast
      next
        case found
        from probe_loop_found [OF found(1-3)] assms(3) [OF found(1-3)]
        show ?thesis unfolding found(4) by blast
      next
        case wrapped
        from probe_loop_back [OF wrapped(1-5)] assms(4) [OF wrapped(1-5)]
        show ?thesis unfolding wrapped(6) by blast
      next
        case advance
        from IH' [OF advance(6)]
        have ih: "probe_loop arr key ins step init ((pos + step) mod int (length arr)) = Some r"
          "P ((pos + step) mod int (length arr)) r" by blast+
        have "probe_loop arr key ins step init pos
             = probe_loop arr key ins step init ((pos + step) mod int (length arr))"
          using advance(1-5) by (rule probe_loop_next)
        moreover have "P pos r"
          using advance(1-5) ih by (rule assms(5))
        ultimately show ?thesis using ih(1) by simp
      next
        case empty
        from probe_loop_empty [OF empty(1-3)] assms(6) [OF empty(1-3)]
        show ?thesis unfolding empty(4) by blast
      qed
    qed
  qed
  then show ?thesis by simp
qed

lemma probe_loop_result:
  assumes "probe_loop arr key ins step init pos = Some r"
  shows "(\<forall>p. r = Inr p \<longrightarrow> 0 \<le> p \<and> p < int (length arr)
            \<and> (is_key (arr ! nat p) key \<or> (ins \<and> arr ! nat p = Empty)))
       \<and> (\<forall>e. r = Inl e \<longrightarrow> e = IndexError \<or> e = (if ins then FullError else KeyError))"
  using assms by (induction rule: probe_loop_induct) simp_all

lemma mod_in_range:
  assumes "0 \<le> (pos :: int)" and "pos < n"
  shows "0 \<le> (pos + step) mod n" and "(pos + step) mod n < n"
proof -
  from assms have "0 < n" by linarith
  then show "0 \<le> (pos + step) mod n" and "(pos + step) mod n < n"
    by (rule pos_mod_sign, rule pos_mod_bound)
qed

lemma probe_loop_no_IndexError:
  assumes "probe_loop arr key ins step init pos = Some r"
    and "0 \<le> pos" and "pos < int (length arr)"
  shows "r \<noteq> Inl IndexError"
  using assms
proof (induction rule: probe_loop_induct)
  case (out_of_range pos)
  then show ?case by linarith
next
  case (found pos)
  show ?case by simp
next
  case (wrapped pos)
  show ?case by simp
next
  case (advance pos r)
  from mod_in_range [OF advance.hyps(1,2)] show ?case by (rule advance.IH)
next
  case (empty pos)
  show ?case by simp
qed

lemma probe_loop_lookup_stable_aux:
  assumes "probe_loop arr key False step init pos = Some r"
    and "r = Inr p"
    and "length arr' = length arr"
    and "\<And>i. i < length arr \<Longrightarrow> is_key (arr' ! i) key \<longleftrightarrow> is_key (arr ! i) key"
    and "\<And>i. i < length arr \<Longrightarrow> arr ! i \<noteq> Empty \<Longrightarrow> arr' ! i \<noteq> Empty"
  shows "probe_loop arr' key False step init pos = Some r"
  using assms(1,2)
proof (induction rule: probe_loop_induct)
  case (out_of_range pos)
  then show ?case by simp
next
  case (found pos)
  then have "nat pos < length arr" by simp
  with found assms(3) assms(4) [of "nat pos"] show ?case by (simp add: probe_loop_found)
next
  case (wrapped pos)
  then show ?case by simp
next
  case (advance pos r)
  then have "nat pos < length arr" by simp
  with advance.hyps(1-5) assms(3) assms(4) [of "nat pos"] assms(5) [of "nat pos"]
  have "probe_loop arr' key False step init pos
          = probe_loop arr' key False step init ((pos + step) mod int (length arr'))"
    by (intro probe_loop_next) simp_all
  with advance.IH [OF advance.prems] assms(3) show ?case by simp
next
  case (empty pos)
  then show ?case by simp
qed

lemma probe_loop_lookup_stable:
  assumes "probe_loop arr key False step init pos = Some (Inr p)"
    and "length arr' = length arr"
    and "\<And>i. i < length arr \<Longrightarrow> is_key (arr' ! i) key \<longleftrightarrow> is_key (arr ! i) key"
    and "\<And>i. i < length arr \<Longrightarrow> arr ! i \<noteq> Empty \<Longrightarrow> arr' ! i \<noteq> Empty"
  shows "probe_loop arr' key False step init pos = Some (Inr p)"
  using probe_loop_lookup_stable_aux [OF assms(1) refl assms(2,3,4)] by simp

lemma probe_loop_insert_lookup_aux:
  assumes "probe_loop arr key True step init pos = Some r"
    and "r = Inr p" and "0 \<le> p" and "p < int (length arr)"
  shows "probe_loop (arr[nat p := Occupied key v]) key False step init pos = Some r"
  using assms(1,2)
proof (induction rule: probe_loop_induct)
  case (out_of_range pos)
  then show ?case by simp
next
  case (found pos)
  then show ?case by (simp add: probe_loop_found)
next
  case (wrapped pos)
  then show ?case by simp
next
  case (advance pos r)
  show ?case
  proof (cases "p = pos")
    case True
    with advance.hyps(1,2) have "probe_loop (arr[nat p := Occupied key v]) key False step init pos
       = Some (Inr pos)" by (intro probe_loop_found) simp_all
    with True advance.prems show ?thesis by simp
  next
    case False
    with assms(3) advance.hyps(1) have "nat p \<noteq> nat pos" by simp
    with advance.hyps(1-5) have
      "probe_loop (arr[nat p := Occupied key v]) key False step init pos
         = probe_loop (arr[nat p := Occupied key v]) key False step init
             ((pos + step) mod int (length (arr[nat p := Occupied key v])))"
      by (intro probe_loop_next) simp_all
    with advance.IH [OF advance.prems] show ?thesis by simp
  qed
next
  case (empty pos)
  then have "p = pos" by simp
  with empty.hyps(1,2) have "probe_loop (arr[nat p := Occupied key v]) key False step init pos
       = Some (Inr pos)" by (intro probe_loop_found) simp_all
  with \<open>p = pos\<close> empty.prems show ?case by simp
qed

lemma probe_loop_insert_lookup:
  assumes "probe_loop arr key True step init pos = Some (Inr p)"
  shows "probe_loop (arr[nat p := Occupied key v]) key False step init pos = Some (Inr p)"
proof -
  from probe_loop_result [OF assms] have "0 \<le> p" "p < int (length arr)" by simp_all
  from probe_loop_insert_lookup_aux [OF assms refl this] show ?thesis .
qed

lemma probe_loop_lookup_insert_aux:
  assumes "probe_loop arr key False step init pos = Some r" and "r = Inr p"
  shows "probe_loop arr key True step init pos = Some r"
  using assms
proof (induction rule: probe_loop_induct)
  case (out_of_range pos)
  then show ?case by simp
next
  case (found pos)
  then show ?case by (simp add: probe_loop_found)
next
  case (wrapped pos)
  then show ?case by simp
next
  case (advance pos r)
  from advance.hyps(1-5) have "probe_loop arr key True step init pos
    = probe_loop arr key True step init ((pos + step) mod int (length arr))"
    by (rule probe_loop_next)
  with advance.IH [OF advance.prems] show ?case by simp
next
  case (empty pos)
  then show ?case by simp
qed

lemma probe_loop_lookup_insert:
  assumes "probe_loop arr key False step init pos = Some (Inr p)"
  shows "probe_loop arr key True step init pos = Some (Inr p)"
  using probe_loop_lookup_insert_aux [OF assms refl] .

subsection \<open>The probe of a table\<close>

lemma step_hash_length:
  "length (array t') = length (array t) \<Longrightarrow> step_hash t' key = step_hash t key"
  by (simp add: step_hash_def table_size_def)

lemma step_hash2_length:
  "length (array t') = length (array t) \<Longrightarrow> step_hash2 t' key = step_hash2 t key"
  by (simp add: step_hash2_def step_hash_def table_size_def split: sum.splits)

lemma hashy_probe_array:
  "array t' = array t \<Longrightarrow> hashy_probe t' key ins = hashy_probe t key ins"
  by (simp add: hashy_probe_def step_hash2_def step_hash_def table_size_def split: sum.splits)

lemma hashy_probe_Inr:
  assumes "hashy_probe t key ins = Some (Inr p)"
  obtains h s where "step_hash t key = Inr h" and "step_hash2 t key = Inr s"
    and "probe_loop (array t) key ins s h h = Some (Inr p)"
  using assms by (auto simp: hashy_probe_def split: sum.splits)

lemma hashy_probe_result:
  assumes "hashy_probe t key ins = Some (Inr p)"
  shows "0 \<le> p" and "nat p < length (array t)"
    and "is_key (array t ! nat p) key \<or> (ins \<and> array t ! nat p = Empty)"
proof -
  from assms obtain h s where "probe_loop (array t) key ins s h h = Some (Inr p)"
    by (rule hashy_probe_Inr)
  from probe_loop_result [OF this]
  have r: "0 \<le> p \<and> p < int (length (array t))
    \<and> (is_key (array t ! nat p) key \<or> (ins \<and> array t ! nat p = Empty))" by blast
  from r show "0 \<le> p" by blast
  from r show "nat p < length (array t)" by linarith
  from r show "is_key (array t ! nat p) key \<or> (ins \<and> array t ! nat p = Empty)" by blast
qed

lemma hashy_probe_lookup_stable:
  assumes "hashy_probe t key False = Some (Inr p)"
    and "length (array t') = length (array t)"
    and "\<And>i. i < length (array t) \<Longrightarrow> is_key (array t' ! i) key \<longleftrightarrow> is_key (array t ! i) key"
    and "\<And>i. i < length (array t) \<Longrightarrow> array t ! i \<noteq> Empty \<Longrightarrow> array t' ! i \<noteq> Empty"
  shows "hashy_probe t' key False = Some (Inr p)"
proof -
  from assms(1) obtain h s where hs: "step_hash t key = Inr h" "step_hash2 t key = Inr s"
    and run: "probe_loop (array t) key False s h h = Some (Inr p)"
    by (rule hashy_probe_Inr)
  from probe_loop_lookup_stable [OF run assms(2,3,4)]
  have "probe_loop (array t') key False s h h = Some (Inr p)" by simp
  with hs show ?thesis
    by (simp add: hashy_probe_def step_hash_length [OF assms(2)] step_hash2_length [OF assms(2)])
qed

lemma hashy_probe_insert_lookup:
  assumes "hashy_probe t key True = Some (Inr p)"
    and "array t' = (array t)[nat p := Occupied key v]"
  shows "hashy_probe t' key False = Some (Inr p)"
proof -
  from assms(1) obtain h s where hs: "step_hash t key = Inr h" "step_hash2 t key = Inr s"
    and run: "probe_loop (array t) key True s h h = Some (Inr p)"
    by (rule hashy_probe_Inr)
  have len: "length (array t') = length (array t)" using assms(2) by simp
  from probe_loop_insert_lookup [OF run, of v] assms(2)
  have "probe_loop (array t') key False s h h = Some (Inr p)" by simp
  with hs show ?thesis
    by (simp add: hashy_probe_def step_hash_length [OF len] step_hash2_length [OF len])
qed

lemma hashy_probe_lookup_insert:
  assumes "hashy_probe t key False = Some (Inr p)"
  shows "hashy_probe t key True = Some (Inr p)"
proof -
  from assms obtain h s where hs: "step_hash t key = Inr h" "step_hash2 t key = Inr s"
    and run: "probe_loop (array t) key False s h h = Some (Inr p)"
    by (rule hashy_probe_Inr)
  from probe_loop_lookup_insert [OF run] hs show ?thesis
    by (simp add: hashy_probe_def)
qed

subsection \<open>The two invariants\<close>

lemma array_write_slot [simp]:
  "array (write_slot t p key data) = (array t)[nat p := Occupied key data]"
  by (simp add: write_slot_def Let_def)

lemma write_slot_fields [simp]:
  "TABLE_SIZES (write_slot t p key data) = TABLE_SIZES t"
  "size_index (write_slot t p key data) = size_index t"
  "table_size (write_slot t p key data) = table_size t"
  "count (write_slot t p key data) = (if array t ! nat p = Empty then count t + 1 else count t)"
  by (simp_all add: write_slot_def Let_def table_size_def)

lemma grow_fields [simp]:
  "TABLE_SIZES (grow t) = TABLE_SIZES t"
  "size_index (grow t) = size_index t + 1"
  "array (grow t) = replicate (TABLE_SIZES t ! (size_index t + 1)) Empty"
  "count (grow t) = 0"
  by (simp_all add: grow_def ArrayR_def)

lemma lookup_invD:
  "lookup_inv t \<Longrightarrow> q < length (array t) \<Longrightarrow> array t ! q = Occupied k v \<Longrightarrow>
   hashy_probe t k False = Some (Inr (int q))"
  unfolding lookup_inv_def by blast

lemma write_slot_lookup_inv:
  assumes inv: "lookup_inv t" and probe: "hashy_probe t key True = Some (Inr p)"
  shows "lookup_inv (write_slot t p key data)"
  unfolding lookup_inv_def
proof (intro allI impI)
  fix q k v
  let ?t' = "write_slot t p key data"
  assume "q < length (array ?t') \<and> array ?t' ! q = Occupied k v"
  then have q: "q < length (array t)" and at: "(array t)[nat p := Occupied key data] ! q = Occupied k v"
    by simp_all
  note res = hashy_probe_result [OF probe]
  show "hashy_probe ?t' k False = Some (Inr (int q))"
  proof (cases "q = nat p")
    case True
    with at res have "k = key" by simp
    moreover have "hashy_probe ?t' key False = Some (Inr p)"
      by (rule hashy_probe_insert_lookup [OF probe]) simp
    ultimately show ?thesis using True res by simp
  next
    case False
    with at have old: "array t ! q = Occupied k v" by simp
    from lookup_invD [OF inv q old] have look: "hashy_probe t k False = Some (Inr (int q))" .
    have "k \<noteq> key"
    proof
      assume "k = key"
      with look have "hashy_probe t key True = Some (Inr (int q))"
        by (simp add: hashy_probe_lookup_insert)
      with probe False show False by simp
    qed
    show ?thesis
    proof (rule hashy_probe_lookup_stable [OF look])
      show "length (array ?t') = length (array t)" by simp
    next
      fix i assume "i < length (array t)"
      then show "is_key (array ?t' ! i) k \<longleftrightarrow> is_key (array t ! i) k"
        using res(3) \<open>k \<noteq> key\<close>
        by (cases "i = nat p"; cases "array t ! nat p") auto
    next
      fix i assume "i < length (array t)" and "array t ! i \<noteq> Empty"
      then show "array ?t' ! i \<noteq> Empty"
        by (cases "i = nat p") auto
    qed
  qed
qed

lemma delete_lookup_inv:
  assumes inv: "lookup_inv t" and probe: "hashy_probe t key False = Some (Inr p)"
  shows "lookup_inv (t\<lparr>array := (array t)[nat p := Sentinel], count := c\<rparr>)"
  unfolding lookup_inv_def
proof (intro allI impI)
  fix q k v
  let ?t' = "t\<lparr>array := (array t)[nat p := Sentinel], count := c\<rparr>"
  assume "q < length (array ?t') \<and> array ?t' ! q = Occupied k v"
  then have q: "q < length (array t)" and at: "(array t)[nat p := Sentinel] ! q = Occupied k v"
    by simp_all
  note res = hashy_probe_result [OF probe]
  from at q have ne: "q \<noteq> nat p" by (cases "q = nat p") auto
  with at have old: "array t ! q = Occupied k v" by simp
  from lookup_invD [OF inv q old] have look: "hashy_probe t k False = Some (Inr (int q))" .
  with probe ne have "k \<noteq> key" by auto
  show "hashy_probe ?t' k False = Some (Inr (int q))"
  proof (rule hashy_probe_lookup_stable [OF look])
    show "length (array ?t') = length (array t)" by simp
  next
    fix i assume "i < length (array t)"
    then show "is_key (array ?t' ! i) k \<longleftrightarrow> is_key (array t ! i) k"
      using res(3) \<open>k \<noteq> key\<close>
      by (cases "i = nat p"; cases "array t ! nat p") auto
  next
    fix i assume "i < length (array t)" and "array t ! i \<noteq> Empty"
    then show "array ?t' ! i \<noteq> Empty"
      by (cases "i = nat p") auto
  qed
qed

lemma lookup_inv_array:
  assumes "array t' = array t"
  shows "lookup_inv t' = lookup_inv t"
proof -
  have "hashy_probe t' k False = hashy_probe t k False" for k
    by (rule hashy_probe_array [OF assms])
  with assms show ?thesis by (simp add: lookup_inv_def)
qed

lemma lookup_inv_grow: "lookup_inv (grow t)"
  by (auto simp: lookup_inv_def)

lemma filter_length_update:
  "i < length xs \<Longrightarrow>
   int (length (filter P (xs[i := x])))
     = int (length (filter P xs)) - (if P (xs ! i) then 1 else 0) + (if P x then 1 else 0)"
proof (induction xs arbitrary: i)
  case Nil
  then show ?case by simp
next
  case (Cons a xs)
  show ?case
  proof (cases i)
    case 0
    then show ?thesis by simp
  next
    case (Suc j)
    with Cons.prems have "j < length xs" by simp
    from Cons.IH [OF this] Suc show ?thesis by (auto split: if_splits)
  qed
qed

lemma write_slot_count_inv:
  assumes "count_inv t" and probe: "hashy_probe t key True = Some (Inr p)"
  shows "count_inv (write_slot t p key data)"
proof -
  note res = hashy_probe_result [OF probe]
  from res(3) have "is_occupied (array t ! nat p) \<longleftrightarrow> array t ! nat p \<noteq> Empty"
    by (cases "array t ! nat p") auto
  with assms(1) res(2) show ?thesis
    by (simp add: count_inv_def filter_length_update)
qed

lemma delete_count_inv:
  assumes "count_inv t" and probe: "hashy_probe t key False = Some (Inr p)"
  shows "count_inv (t\<lparr>array := (array t)[nat p := Sentinel], count := count t - 1\<rparr>)"
proof -
  note res = hashy_probe_result [OF probe]
  from res(3) have "is_occupied (array t ! nat p)"
    by (cases "array t ! nat p") auto
  with assms(1) res(2) show ?thesis
    by (simp add: count_inv_def filter_length_update)
qed

lemma count_inv_grow: "count_inv (grow t)"
  by (simp add: count_inv_def)

subsection \<open>set, rehash and the re-insertion loop return\<close>

lemma step_total:
  fixes t :: "'v step_table"
  shows "\<exists>res. step_setitem t key data = Some res"
    and "\<exists>res. step_rehash t = Some res"
    and "\<exists>res. rehash_loop t items = Some res"
proof (induct t key data and t and t items rule: step_induct)
  case (setitem t key data)
  from hashy_probe_terminates obtain r where r: "hashy_probe t key True = Some r" by blast
  show ?case
  proof (cases r)
    case (Inl e)
    with r show ?thesis by (simp add: step_setitem_unfold)
  next
    case (Inr p)
    show ?thesis
    proof (cases "table_size (write_slot t p key data) * 2 < 3 * count (write_slot t p key data)")
      case True
      from setitem [OF r [unfolded Inr] True] r Inr True show ?thesis
        by (simp add: step_setitem_unfold)
    next
      case False
      with r Inr show ?thesis by (simp add: step_setitem_unfold)
    qed
  qed
next
  case (rehash t)
  then show ?case by (cases "length (TABLE_SIZES t) \<le> size_index t + 1")
      (simp_all add: step_rehash_unfold)
next
  case (loop_Nil t)
  show ?case by simp
next
  case (loop_skip t item items)
  then show ?case by (auto simp: rehash_loop_Cons)
next
  case (loop_Occupied t k v items)
  from loop_Occupied(1) obtain r t1 where s: "step_setitem t k v = Some (r, t1)" by auto
  show ?case
  proof (cases r)
    case None
    with s loop_Occupied(2) [of t1] show ?thesis by (simp add: rehash_loop_Cons)
  next
    case (Some e)
    with s show ?thesis by (simp add: rehash_loop_Cons)
  qed
qed

lemma step_setitem_cases [consumes 1, case_names probe_error stored rehashed]:
  assumes "step_setitem t key data = Some (r, t')"
  obtains e where "hashy_probe t key True = Some (Inl e)" and "r = Some e" and "t' = t"
  | p where "hashy_probe t key True = Some (Inr p)"
      and "\<not> table_size (write_slot t p key data) * 2 < 3 * count (write_slot t p key data)"
      and "r = None" and "t' = write_slot t p key data"
  | p where "hashy_probe t key True = Some (Inr p)"
      and "table_size (write_slot t p key data) * 2 < 3 * count (write_slot t p key data)"
      and "step_rehash (write_slot t p key data) = Some (r, t')"
proof -
  from hashy_probe_terminates obtain x where x: "hashy_probe t key True = Some x" by blast
  show ?thesis
  proof (cases x)
    case (Inl e)
    with x assms have "r = Some e \<and> t' = t" by (auto simp: step_setitem_unfold)
    with x Inl that(1) show ?thesis by blast
  next
    case (Inr p)
    show ?thesis
    proof (cases "table_size (write_slot t p key data) * 2 < 3 * count (write_slot t p key data)")
      case True
      with x Inr assms have "step_rehash (write_slot t p key data) = Some (r, t')"
        by (simp add: step_setitem_unfold)
      with x Inr True that(3) show ?thesis by blast
    next
      case False
      with x Inr assms have "r = None \<and> t' = write_slot t p key data"
        by (auto simp: step_setitem_unfold)
      with x Inr False that(2) show ?thesis by blast
    qed
  qed
qed

lemma step_rehash_cases [consumes 1, case_names exhausted grown]:
  assumes "step_rehash t = Some (r, t')"
  obtains "length (TABLE_SIZES t) \<le> size_index t + 1" and "r = Some FullError"
      and "t' = t\<lparr>size_index := size_index t + 1\<rparr>"
  | "\<not> length (TABLE_SIZES t) \<le> size_index t + 1"
      and "rehash_loop (grow t) (array t) = Some (r, t')"
  using assms by (cases "length (TABLE_SIZES t) \<le> size_index t + 1")
    (simp_all add: step_rehash_unfold)

lemma rehash_loop_Occupied_cases [consumes 1, case_names failed continued]:
  assumes "rehash_loop t (Occupied k v # items) = Some (r, t')"
  obtains e where "step_setitem t k v = Some (Some e, t')" and "r = Some e"
  | t1 where "step_setitem t k v = Some (None, t1)" and "rehash_loop t1 items = Some (r, t')"
proof -
  from step_total(1) obtain r1 t1 where s: "step_setitem t k v = Some (r1, t1)" by fastforce
  show ?thesis
  proof (cases r1)
    case None
    with s assms have "rehash_loop t1 items = Some (r, t')" by (simp add: rehash_loop_Cons)
    with s None that(2) show ?thesis by blast
  next
    case (Some e)
    with s assms have "r = Some e \<and> t' = t1" by (auto simp: rehash_loop_Cons)
    with s Some that(1) show ?thesis by blast
  qed
qed

lemma step_mono:
  fixes t :: "'v step_table"
  shows "step_setitem t key data = Some (r, t') \<Longrightarrow>
      TABLE_SIZES t' = TABLE_SIZES t \<and> size_index t \<le> size_index t'"
    and "step_rehash t = Some (r, t') \<Longrightarrow>
      TABLE_SIZES t' = TABLE_SIZES t \<and> size_index t < size_index t'"
    and "rehash_loop t items = Some (r, t') \<Longrightarrow>
      TABLE_SIZES t' = TABLE_SIZES t \<and> size_index t \<le> size_index t'"
proof (induct t key data and t and t items arbitrary: r t' and r t' and r t' rule: step_induct)
  case (setitem t key data)
  from setitem(2) show ?case
  proof (cases rule: step_setitem_cases)
    case (probe_error e)
    then show ?thesis by simp
  next
    case (stored p)
    then show ?thesis by simp
  next
    case (rehashed p)
    from setitem(1) [OF rehashed] show ?thesis by simp
  qed
next
  case (rehash t)
  from rehash(2) show ?case
  proof (cases rule: step_rehash_cases)
    case exhausted
    then show ?thesis by simp
  next
    case grown
    from rehash(1) [OF grown] show ?thesis by simp
  qed
next
  case (loop_Nil t)
  then show ?case by simp
next
  case (loop_skip t item items)
  from loop_skip(1,3) have "rehash_loop t items = Some (r, t')"
    by (auto simp: rehash_loop_Cons)
  then show ?case by (rule loop_skip(2))
next
  case (loop_Occupied t k v items)
  from loop_Occupied(3) show ?case
  proof (cases rule: rehash_loop_Occupied_cases)
    case (failed e)
    from loop_Occupied(1) [OF failed(1)] show ?thesis .
  next
    case (continued t1)
    from loop_Occupied(1) [OF continued(1)] loop_Occupied(2) [OF continued]
    show ?thesis by simp
  qed
qed

subsection \<open>The invariants hold after every call, failed or not\<close>

lemma step_lookup_inv:
  fixes t :: "'v step_table"
  shows "step_setitem t key data = Some (r, t') \<Longrightarrow> lookup_inv t \<Longrightarrow> lookup_inv t'"
    and "step_rehash t = Some (r, t') \<Longrightarrow> lookup_inv t \<Longrightarrow> lookup_inv t'"
    and "rehash_loop t items = Some (r, t') \<Longrightarrow> lookup_inv t \<Longrightarrow> lookup_inv t'"
proof (induct t key data and t and t items arbitrary: r t' and r t' and r t' rule: step_induct)
  case (setitem t key data)
  from setitem(2) show ?case
  proof (cases rule: step_setitem_cases)
    case (probe_error e)
    with setitem(3) show ?thesis by simp
  next
    case (stored p)
    with write_slot_lookup_inv [OF setitem(3) stored(1)] show ?thesis by simp
  next
    case (rehashed p)
    from setitem(1) [OF rehashed write_slot_lookup_inv [OF setitem(3) rehashed(1)]]
    show ?thesis .
  qed
next
  case (rehash t)
  from rehash(2) show ?case
  proof (cases rule: step_rehash_cases)
    case exhausted
    then have "array t' = array t" by simp
    from lookup_inv_array [OF this] rehash(3) show ?thesis by simp
  next
    case grown
    from rehash(1) [OF grown lookup_inv_grow] show ?thesis .
  qed
next
  case (loop_Nil t)
  then show ?case by simp
next
  case (loop_skip t item items)
  from loop_skip(1,3) have "rehash_loop t items = Some (r, t')"
    by (auto simp: rehash_loop_Cons)
  then show ?case using loop_skip(4) by (rule loop_skip(2))
next
  case (loop_Occupied t k v items)
  from loop_Occupied(3) show ?case
  proof (cases rule: rehash_loop_Occupied_cases)
    case (failed e)
    from loop_Occupied(1) [OF failed(1) loop_Occupied(4)] show ?thesis .
  next
    case (continued t1)
    from loop_Occupied(2) [OF continued loop_Occupied(1) [OF continued(1) loop_Occupied(4)]]
    show ?thesis .
  qed
qed

lemma step_count_inv:
  fixes t :: "'v step_table"
  shows "step_setitem t key data = Some (r, t') \<Longrightarrow> count_inv t \<Longrightarrow> count_inv t'"
    and "step_rehash t = Some (r, t') \<Longrightarrow> count_inv t \<Longrightarrow> count_inv t'"
    and "rehash_loop t items = Some (r, t') \<Longrightarrow> count_inv t \<Longrightarrow> count_inv t'"
proof (induct t key data and t and t items arbitrary: r t' and r t' and r t' rule: step_induct)
  case (setitem t key data)
  from setitem(2) show ?case
  proof (cases rule: step_setitem_cases)
    case (probe_error e)
    with setitem(3) show ?thesis by simp
  next
    case (stored p)
    with write_slot_count_inv [OF setitem(3) stored(1)] show ?thesis by simp
  next
    case (rehashed p)
    from setitem(1) [OF rehashed write_slot_count_inv [OF setitem(3) rehashed(1)]]
    show ?thesis .
  qed
next
  case (rehash t)
  from rehash(2) show ?case
  proof (cases rule: step_rehash_cases)
    case exhausted
    with rehash(3) show ?thesis by (simp add: count_inv_def)
  next
    case grown
    from rehash(1) [OF grown count_inv_grow] show ?thesis .
  qed
next
  case (loop_Nil t)
  then show ?case by simp
next
  case (loop_skip t item items)
  from loop_skip(1,3) have "rehash_loop t items = Some (r, t')"
    by (auto simp: rehash_loop_Cons)
  then show ?case using loop_skip(4) by (rule loop_skip(2))
next
  case (loop_Occupied t k v items)
  from loop_Occupied(3) show ?case
  proof (cases rule: rehash_loop_Occupied_cases)
    case (failed e)
    from loop_Occupied(1) [OF failed(1) loop_Occupied(4)] show ?thesis .
  next
    case (continued t1)
    from loop_Occupied(2) [OF continued loop_Occupied(1) [OF continued(1) loop_Occupied(4)]]
    show ?thesis .
  qed
qed

lemma step_delitem_cases [consumes 1, case_names probe_error deleted]:
  assumes "step_delitem t key = Some (r, t')"
  obtains e where "hashy_probe t key False = Some (Inl e)" and "r = Some e" and "t' = t"
  | p where "hashy_probe t key False = Some (Inr p)" and "r = None"
      and "t' = t\<lparr>array := (array t)[nat p := Sentinel], count := count t - 1\<rparr>"
proof -
  from hashy_probe_terminates obtain x where x: "hashy_probe t key False = Some x" by blast
  show ?thesis
  proof (cases x)
    case (Inl e)
    with x assms have "r = Some e \<and> t' = t" by (auto simp: step_delitem_def)
    with x Inl that(1) show ?thesis by blast
  next
    case (Inr p)
    from hashy_probe_result(3) [OF x [unfolded Inr]]
    have "array t ! nat p \<noteq> Empty \<and> array t ! nat p \<noteq> Sentinel"
      by (cases "array t ! nat p") auto
    with x Inr assms have "r = None
      \<and> t' = t\<lparr>array := (array t)[nat p := Sentinel], count := count t - 1\<rparr>"
      by (auto simp: step_delitem_def)
    with x Inr that(2) show ?thesis by blast
  qed
qed

lemma step_init_inv:
  assumes "step_init sizes = Inr t"
  shows "lookup_inv t" and "count_inv t"
  using assms
  by (auto simp: step_init_def Let_def ArrayR_def lookup_inv_def count_inv_def split: if_splits)

lemma step_reachable_inv:
  assumes "step_reachable t"
  shows "lookup_inv t \<and> count_inv t"
  using assms
proof (induction rule: step_reachable.induct)
  case (step_reach_init sizes t)
  then show ?case by (simp add: step_init_inv)
next
  case (step_reach_set t key data r t')
  then show ?case by (simp add: step_lookup_inv(1) step_count_inv(1))
next
  case (step_reach_del t key r t')
  from step_reach_del(2) show ?case
  proof (cases rule: step_delitem_cases)
    case (probe_error e)
    with step_reach_del(3) show ?thesis by simp
  next
    case (deleted p)
    with step_reach_del(3) delete_lookup_inv [of t key p "count t - 1"]
      delete_count_inv [of t key p]
    show ?thesis by simp
  qed
qed

subsection \<open>The probe sequence on a prime capacity\<close>


lemma is_prime_coprime:
  assumes "is_prime p" and "1 \<le> s" and "s < int p"
  shows "coprime (int p) s"
proof -
  let ?g = "gcd p (nat s)"
  from assms have p: "1 < p" by (simp add: is_prime_def)
  have gp: "?g dvd p" and gs: "?g dvd nat s" by simp_all
  from assms(2) gs have "?g \<le> nat s" by (intro dvd_imp_le) simp_all
  with assms(2,3) have lt: "?g < p" by linarith
  from p have "?g \<noteq> 0" by simp
  have "?g = 1"
  proof (rule ccontr)
    assume "?g \<noteq> 1"
    with \<open>?g \<noteq> 0\<close> have "2 \<le> ?g" by linarith
    with lt have "?g \<in> {2..<p}" by simp
    with assms(1) gp show False by (auto simp: is_prime_def)
  qed
  then have "coprime p (nat s)" by (simp only: coprime_iff_gcd_eq_1)
  then have "coprime (int p) (int (nat s))" by (simp only: coprime_int_iff)
  with assms(2) show ?thesis by simp
qed

lemma is_prime_5: "is_prime 5"
  unfolding is_prime_def by code_simp

lemma is_prime_13: "is_prime 13"
  unfolding is_prime_def by code_simp

lemma probe_path_inj:
  assumes cop: "coprime n s" and "i < j" and "int j < n"
  shows "(h + int i * s) mod n \<noteq> (h + int j * s) mod n"
proof
  assume "(h + int i * s) mod n = (h + int j * s) mod n"
  then have "(h + int j * s) mod n = (h + int i * s) mod n" by simp
  then have "n dvd (h + int j * s) - (h + int i * s)" by (simp only: mod_eq_dvd_iff)
  moreover have "(h + int j * s) - (h + int i * s) = (int j - int i) * s"
    by (simp add: algebra_simps)
  ultimately have "n dvd (int j - int i) * s" by simp
  with cop have "n dvd int j - int i" by (simp only: coprime_dvd_mult_left_iff)
  moreover from assms(2,3) have "0 < int j - int i" and "int j - int i < n" by simp_all
  ultimately show False by (simp only: zdvd_not_zless)
qed

lemma probe_path_distinct:
  assumes "coprime n s" and "i \<noteq> j" and "int i < n" and "int j < n"
  shows "(h + int i * s) mod n \<noteq> (h + int j * s) mod n"
proof (cases "i < j")
  case True
  from probe_path_inj [OF assms(1) True assms(4)] show ?thesis .
next
  case False
  with assms(2) have "j < i" by simp
  from probe_path_inj [OF assms(1) this assms(3), of h] show ?thesis by simp
qed

lemma probe_path_cover:
  assumes cop: "coprime (int n) s" and q: "q < n"
  shows "\<exists>i<n. (h + int i * s) mod int n = int q"
proof -
  let ?f = "\<lambda>i. nat ((h + int i * s) mod int n)"
  from q have n: "0 < int n" by simp
  have "inj_on ?f {0..<n}"
  proof (rule inj_onI)
    fix i j assume i: "i \<in> {0..<n}" and j: "j \<in> {0..<n}" and eq: "?f i = ?f j"
    have "0 \<le> (h + int i * s) mod int n" and "0 \<le> (h + int j * s) mod int n"
      using n by simp_all
    with eq have e: "(h + int i * s) mod int n = (h + int j * s) mod int n" by linarith
    show "i = j"
    proof (rule ccontr)
      assume "i \<noteq> j"
      from probe_path_distinct [OF cop this, of h] i j e show False by simp
    qed
  qed
  moreover have "?f ` {0..<n} \<subseteq> {0..<n}"
  proof
    fix x assume "x \<in> ?f ` {0..<n}"
    then obtain i where x: "x = ?f i" by blast
    have "(h + int i * s) mod int n < int n" using n by simp
    moreover have "0 \<le> (h + int i * s) mod int n" using n by simp
    ultimately show "x \<in> {0..<n}" using x by simp
  qed
  ultimately have "?f ` {0..<n} = {0..<n}"
    by (intro endo_inj_surj) simp_all
  with q have "q \<in> ?f ` {0..<n}" by simp
  then obtain i where i: "i < n" and "q = ?f i" by auto
  moreover have "0 \<le> (h + int i * s) mod int n" using n by simp
  ultimately have "(h + int i * s) mod int n = int q" by simp
  with i show ?thesis by blast
qed

lemma hashy_probe_errors:
  assumes "2 \<le> table_size t" and "hashy_probe t key ins = Some (Inl e)"
  shows "e = (if ins then FullError else KeyError)"
proof -
  from step_hash_range [OF assms(1)] obtain h where
    h: "step_hash t key = Inr h" "0 \<le> h" "h < table_size t" by blast
  from step_hash2_range [OF assms(1)] obtain s where s: "step_hash2 t key = Inr s" by blast
  from assms(2) h s have run: "probe_loop (array t) key ins s h h = Some (Inl e)"
    by (simp add: hashy_probe_def)
  from probe_loop_no_IndexError [OF run h(2)] h(3) have "e \<noteq> IndexError"
    by (simp add: table_size_def)
  with probe_loop_result [OF run] show ?thesis by auto
qed

subsection \<open>What a successful set leaves in the table\<close>

lemma write_slot_stored:
  assumes probe: "hashy_probe t key True = Some (Inr p)"
  shows "Occupied key data \<in> set (array (write_slot t p key data))"
    and "k \<noteq> key \<Longrightarrow> Occupied k v \<in> set (array t) \<Longrightarrow>
         Occupied k v \<in> set (array (write_slot t p key data))"
proof -
  note res = hashy_probe_result [OF probe]
  from res(2) show "Occupied key data \<in> set (array (write_slot t p key data))"
    by (simp add: set_update_memI)
  assume k: "k \<noteq> key" and "Occupied k v \<in> set (array t)"
  then obtain q where q: "q < length (array t)" "array t ! q = Occupied k v"
    by (auto simp: in_set_conv_nth)
  with res(3) k have "q \<noteq> nat p" by auto
  with q have "(array t)[nat p := Occupied key data] ! q = Occupied k v" by simp
  moreover from q(1) have "q < length ((array t)[nat p := Occupied key data])" by simp
  ultimately have "Occupied k v \<in> set ((array t)[nat p := Occupied key data])"
    by (metis nth_mem)
  then show "Occupied k v \<in> set (array (write_slot t p key data))" by simp
qed

lemma lookup_inv_single_valued:
  assumes "lookup_inv t" and "Occupied k v \<in> set (array t)" and "Occupied k v' \<in> set (array t)"
  shows "v = v'"
proof -
  from assms(2) obtain q where q: "q < length (array t)" "array t ! q = Occupied k v"
    by (auto simp: in_set_conv_nth)
  from assms(3) obtain q' where q': "q' < length (array t)" "array t ! q' = Occupied k v'"
    by (auto simp: in_set_conv_nth)
  from lookup_invD [OF assms(1) q] lookup_invD [OF assms(1) q'] have "q = q'" by simp
  with q q' show ?thesis by simp
qed

lemma step_getitem_stored:
  assumes "lookup_inv t" and "Occupied k v \<in> set (array t)"
  shows "step_getitem t k = Some (Inr v)"
proof -
  from assms(2) obtain q where q: "q < length (array t)" "array t ! q = Occupied k v"
    by (auto simp: in_set_conv_nth)
  from lookup_invD [OF assms(1) q] q(2) show ?thesis
    by (simp add: step_getitem_def)
qed

lemma step_stored:
  fixes t :: "'v step_table"
  shows "step_setitem t key data = Some (None, t') \<Longrightarrow> lookup_inv t \<Longrightarrow>
      Occupied key data \<in> set (array t')
      \<and> (\<forall>k v. k \<noteq> key \<longrightarrow> Occupied k v \<in> set (array t) \<longrightarrow> Occupied k v \<in> set (array t'))"
    and "step_rehash t = Some (None, t') \<Longrightarrow> lookup_inv t \<Longrightarrow>
      (\<forall>k v. Occupied k v \<in> set (array t) \<longrightarrow> Occupied k v \<in> set (array t'))"
    and "rehash_loop t items = Some (None, t') \<Longrightarrow> lookup_inv t \<Longrightarrow>
      (\<forall>k v v'. Occupied k v \<in> set items \<longrightarrow> Occupied k v' \<in> set items \<longrightarrow> v = v') \<Longrightarrow>
      (\<forall>k v. Occupied k v \<in> set items \<longrightarrow> Occupied k v \<in> set (array t'))
      \<and> (\<forall>k v. Occupied k v \<in> set (array t) \<longrightarrow> (\<forall>v'. Occupied k v' \<notin> set items)
            \<longrightarrow> Occupied k v \<in> set (array t'))"
proof (induct t key data and t and t items arbitrary: t' and t' and t' rule: step_induct)
  case (setitem t key data)
  from setitem(2) show ?case
  proof (cases rule: step_setitem_cases)
    case (probe_error e)
    then show ?thesis by simp
  next
    case (stored p)
    with write_slot_stored [OF stored(1)] show ?thesis by blast
  next
    case (rehashed p)
    from setitem(1) [OF rehashed write_slot_lookup_inv [OF setitem(3) rehashed(1)]]
      write_slot_stored [OF rehashed(1)]
    show ?thesis by blast
  qed
next
  case (rehash t)
  from rehash(2) show ?case
  proof (cases rule: step_rehash_cases)
    case exhausted
    then show ?thesis by simp
  next
    case grown
    have "\<forall>k v v'. Occupied k v \<in> set (array t) \<longrightarrow> Occupied k v' \<in> set (array t) \<longrightarrow> v = v'"
      using lookup_inv_single_valued [OF rehash(3)] by blast
    from rehash(1) [OF grown lookup_inv_grow this] show ?thesis by blast
  qed
next
  case (loop_Nil t)
  then show ?case by simp
next
  case (loop_skip t item items)
  from loop_skip(1,3) have run: "rehash_loop t items = Some (None, t')"
    by (auto simp: rehash_loop_Cons)
  from loop_skip(1) have same: "Occupied k v \<in> set (item # items) \<longleftrightarrow> Occupied k v \<in> set items"
    for k v by auto
  from loop_skip(5) have "\<forall>k v v'. Occupied k v \<in> set items \<longrightarrow> Occupied k v' \<in> set items \<longrightarrow> v = v'"
    by (simp only: same) 
  from loop_skip(2) [OF run loop_skip(4) this] show ?case by (simp only: same) 
next
  case (loop_Occupied t k v items)
  from loop_Occupied(3) show ?case
  proof (cases rule: rehash_loop_Occupied_cases)
    case (failed e)
    then show ?thesis by simp
  next
    case (continued t1)
    note first = loop_Occupied(1) [OF continued(1) loop_Occupied(4)]
    have inv1: "lookup_inv t1" by (rule step_lookup_inv(1) [OF continued(1) loop_Occupied(4)])
    have sv: "\<forall>k v v'. Occupied k v \<in> set items \<longrightarrow> Occupied k v' \<in> set items \<longrightarrow> v = v'"
      using loop_Occupied(5) by auto
    note rest = loop_Occupied(2) [OF continued inv1 sv]
    have head: "Occupied k v \<in> set (array t')"
    proof (cases "\<exists>v'. Occupied k v' \<in> set items")
      case True
      then obtain v' where v': "Occupied k v' \<in> set items" by blast
      with loop_Occupied(5) have "v' = v" by auto
      with v' rest show ?thesis by blast
    next
      case False
      with first rest show ?thesis by blast
    qed
    have part1: "\<forall>k' v'. Occupied k' v' \<in> set (Occupied k v # items)
        \<longrightarrow> Occupied k' v' \<in> set (array t')"
      using head rest by auto
    have part2: "\<forall>k' v'. Occupied k' v' \<in> set (array t)
        \<longrightarrow> (\<forall>w. Occupied k' w \<notin> set (Occupied k v # items))
        \<longrightarrow> Occupied k' v' \<in> set (array t')"
    proof (intro allI impI)
      fix k' v' assume a: "Occupied k' v' \<in> set (array t)"
        and b: "\<forall>w. Occupied k' w \<notin> set (Occupied k v # items)"
      from b have "k' \<noteq> k" and "\<forall>w. Occupied k' w \<notin> set items" by auto
      with a first rest show "Occupied k' v' \<in> set (array t')" by blast
    qed
    from part1 part2 show ?thesis by blast
  qed
qed

lemma perfection_set_get:
  assumes "perfection_setitem stats t key data = Inr t'"
  shows "perfection_getitem stats t' key = Inr data"
proof -
  from assms have valid: "perfection_is_valid_key stats key = Inr ()"
    by (auto simp: perfection_setitem_def split: sum.splits)
  from assms obtain position where h: "perfection_hash t key = Inr position"
    by (auto simp: perfection_setitem_def split: sum.splits)
  from perfection_hash_range [OF h] have rng: "nat position < length (parray t)" by linarith
  from assms valid h have arr: "parray t' = (parray t)[nat position := Some (key, data)]"
    by (auto simp: perfection_setitem_def Let_def)
  then have "perfection_hash t' key = perfection_hash t key"
    by (simp add: perfection_hash_def perfection_table_size_def)
  with valid h arr rng show ?thesis
    by (simp add: perfection_getitem_def)
qed

subsection \<open>The only exception of a set is FullError\<close>

lemma step_only_FullError:
  fixes t :: "'v step_table"
  shows "step_setitem t key data = Some (r, t') \<Longrightarrow> 2 \<le> table_size t \<Longrightarrow>
      (\<forall>n \<in> set (TABLE_SIZES t). 2 \<le> n) \<Longrightarrow>
      2 \<le> table_size t' \<and> (r = None \<or> r = Some FullError)"
    and "step_rehash t = Some (r, t') \<Longrightarrow> 2 \<le> table_size t \<Longrightarrow>
      (\<forall>n \<in> set (TABLE_SIZES t). 2 \<le> n) \<Longrightarrow>
      2 \<le> table_size t' \<and> (r = None \<or> r = Some FullError)"
    and "rehash_loop t items = Some (r, t') \<Longrightarrow> 2 \<le> table_size t \<Longrightarrow>
      (\<forall>n \<in> set (TABLE_SIZES t). 2 \<le> n) \<Longrightarrow>
      2 \<le> table_size t' \<and> (r = None \<or> r = Some FullError)"
proof (induct t key data and t and t items arbitrary: r t' and r t' and r t' rule: step_induct)
  case (setitem t key data)
  from setitem(2) show ?case
  proof (cases rule: step_setitem_cases)
    case (probe_error e)
    from hashy_probe_errors [OF setitem(3) probe_error(1)] probe_error(2,3) setitem(3)
    show ?thesis by simp
  next
    case (stored p)
    with setitem(3) show ?thesis by simp
  next
    case (rehashed p)
    from setitem(3,4) have "2 \<le> table_size (write_slot t p key data)"
      and "\<forall>n \<in> set (TABLE_SIZES (write_slot t p key data)). 2 \<le> n" by simp_all
    then show ?thesis by (rule setitem(1) [OF rehashed])
  qed
next
  case (rehash t)
  from rehash(2) show ?case
  proof (cases rule: step_rehash_cases)
    case exhausted
    with rehash(3) show ?thesis by (simp add: table_size_def)
  next
    case grown
    from grown(1) have "TABLE_SIZES t ! (size_index t + 1) \<in> set (TABLE_SIZES t)"
      by (intro nth_mem) simp
    with rehash(4) have "2 \<le> TABLE_SIZES t ! (size_index t + 1)" by blast
    then have "2 \<le> table_size (grow t)" by (simp add: table_size_def)
    moreover from rehash(4) have "\<forall>n \<in> set (TABLE_SIZES (grow t)). 2 \<le> n" by simp
    ultimately show ?thesis by (rule rehash(1) [OF grown])
  qed
next
  case (loop_Nil t)
  then show ?case by simp
next
  case (loop_skip t item items)
  from loop_skip(1,3) have "rehash_loop t items = Some (r, t')"
    by (auto simp: rehash_loop_Cons)
  then show ?case using loop_skip(4,5) by (rule loop_skip(2))
next
  case (loop_Occupied t k v items)
  from loop_Occupied(3) show ?case
  proof (cases rule: rehash_loop_Occupied_cases)
    case (failed e)
    from loop_Occupied(1) [OF failed(1) loop_Occupied(4,5)] failed(2) show ?thesis by simp
  next
    case (continued t1)
    from loop_Occupied(1) [OF continued(1) loop_Occupied(4,5)]
    have "2 \<le> table_size t1" by simp
    moreover from step_mono(1) [OF continued(1)] loop_Occupied(5)
    have "\<forall>n \<in> set (TABLE_SIZES t1). 2 \<le> n" by simp
    ultimately show ?thesis by (rule loop_Occupied(2) [OF continued])
  qed
qed

subsection \<open>Inserting new keys into a table without tombstones\<close>

lemma set_entries: "set (entries xs) = {(k, v). Occupied k v \<in> set xs}"
  by (induction xs rule: entries.induct) auto

lemma length_entries: "length (entries xs) = length (filter is_occupied xs)"
  by (induction xs rule: entries.induct) auto

lemma Occupied_in_update:
  assumes "i < length xs" and "xs ! i = Empty"
  shows "Occupied k' v' \<in> set (xs[i := Occupied k v])
     \<longleftrightarrow> (k' = k \<and> v' = v) \<or> Occupied k' v' \<in> set xs"
proof
  assume "Occupied k' v' \<in> set (xs[i := Occupied k v])"
  then have "Occupied k' v' \<in> insert (Occupied k v) (set xs)"
    using set_update_subset_insert by fastforce
  then show "(k' = k \<and> v' = v) \<or> Occupied k' v' \<in> set xs" by auto
next
  assume a: "(k' = k \<and> v' = v) \<or> Occupied k' v' \<in> set xs"
  show "Occupied k' v' \<in> set (xs[i := Occupied k v])"
  proof (cases "k' = k \<and> v' = v")
    case True
    with assms(1) show ?thesis by (simp add: set_update_memI)
  next
    case False
    with a have "Occupied k' v' \<in> set xs" by blast
    then obtain j where j: "j < length xs" "xs ! j = Occupied k' v'"
      by (auto simp: in_set_conv_nth)
    with assms(2) have "j \<noteq> i" by auto
    with j have "xs[i := Occupied k v] ! j = Occupied k' v'" by simp
    moreover from j(1) have "j < length (xs[i := Occupied k v])" by simp
    ultimately show ?thesis by (metis nth_mem)
  qed
qed

lemma entries_update:
  assumes "i < length xs" and "xs ! i = Empty"
  shows "set (entries (xs[i := Occupied k v])) = insert (k, v) (set (entries xs))"
  unfolding set_entries using Occupied_in_update [OF assms] by auto

lemma Sentinel_update:
  assumes "Sentinel \<notin> set xs"
  shows "Sentinel \<notin> set (xs[i := Occupied k v])"
proof
  assume "Sentinel \<in> set (xs[i := Occupied k v])"
  then have "Sentinel \<in> insert (Occupied k v) (set xs)"
    using set_update_subset_insert by fastforce
  with assms show False by simp
qed

lemma Empty_exists:
  assumes "count_inv t" and "Sentinel \<notin> set (array t)" and "count t < table_size t"
  shows "Empty \<in> set (array t)"
proof (rule ccontr)
  assume "Empty \<notin> set (array t)"
  with assms(2) have "\<forall>x \<in> set (array t). is_occupied x"
  proof (intro ballI)
    fix x assume "x \<in> set (array t)"
    with \<open>Empty \<notin> set (array t)\<close> assms(2) show "is_occupied x" by (cases x) auto
  qed
  then have "filter is_occupied (array t) = array t" by (simp only: filter_True)
  with assms(1,3) show False by (simp add: count_inv_def table_size_def)
qed

lemma probe_loop_full:
  fixes arr :: "'v slot list"
  assumes "0 \<le> init" and "init < int (length arr)"
    and nowrap: "\<And>j. 0 < j \<Longrightarrow> j < length arr \<Longrightarrow>
       (init + int j * step) mod int (length arr) \<noteq> init"
  shows "k < length arr \<Longrightarrow>
    probe_loop arr key True step init ((init + int k * step) mod int (length arr))
      = Some (Inl FullError) \<Longrightarrow>
    (\<forall>j. k \<le> j \<and> j < length arr
       \<longrightarrow> arr ! nat ((init + int j * step) mod int (length arr)) \<noteq> Empty)"
proof (induction m \<equiv> "length arr - k" arbitrary: k)
  case 0
  then show ?case by simp
next
  case (Suc m)
  let ?n = "int (length arr)"
  let ?pos = "(init + int k * step) mod ?n"
  have n: "0 < ?n" using Suc.prems(1) by auto
  then have rng: "0 \<le> ?pos" "?pos < ?n" by simp_all
  have "(?pos + step) mod ?n = ((init + int k * step) + step) mod ?n"
    by (rule mod_add_left_eq)
  also have "\<dots> = (init + int (Suc k) * step) mod ?n"
    by (simp add: algebra_simps)
  finally have nxt: "(?pos + step) mod ?n = (init + int (Suc k) * step) mod ?n" .
  have ne: "arr ! nat ?pos \<noteq> Empty"
  proof
    assume "arr ! nat ?pos = Empty"
    from probe_loop_empty [OF rng this, of key True step init] Suc.prems(2)
    show False by simp
  qed
  have nk: "\<not> is_key (arr ! nat ?pos) key"
  proof
    assume "is_key (arr ! nat ?pos) key"
    from probe_loop_found [OF rng this, of True step init] Suc.prems(2)
    show False by simp
  qed
  show ?case
  proof (cases "Suc k < length arr")
    case True
    from nowrap [OF _ True] nxt have "(?pos + step) mod ?n \<noteq> init" by simp
    from probe_loop_next [OF rng ne nk this, of True] Suc.prems(2) nxt
    have run: "probe_loop arr key True step init ((init + int (Suc k) * step) mod ?n)
       = Some (Inl FullError)" by simp
    from Suc.hyps(2) have "m = length arr - Suc k" by simp
    from Suc.hyps(1) [OF this True run]
    have later: "\<forall>j. Suc k \<le> j \<and> j < length arr
       \<longrightarrow> arr ! nat ((init + int j * step) mod ?n) \<noteq> Empty" .
    show ?thesis
    proof (intro allI impI)
      fix j assume j: "k \<le> j \<and> j < length arr"
      show "arr ! nat ((init + int j * step) mod ?n) \<noteq> Empty"
      proof (cases "j = k")
        case True
        with ne show ?thesis by simp
      next
        case False
        with j have "Suc k \<le> j \<and> j < length arr" by simp
        with later show ?thesis by blast
      qed
    qed
  next
    case False
    show ?thesis
    proof (intro allI impI)
      fix j assume "k \<le> j \<and> j < length arr"
      with False have "j = k" by simp
      with ne show "arr ! nat ((init + int j * step) mod ?n) \<noteq> Empty" by simp
    qed
  qed
qed

lemma hashy_probe_finds_slot:
  assumes prime: "is_prime (length (array t))" and empty: "Empty \<in> set (array t)"
  shows "\<exists>p. hashy_probe t key True = Some (Inr p)"
proof -
  let ?n = "length (array t)"
  from prime have two: "2 \<le> table_size t" by (simp add: is_prime_def table_size_def)
  from step_hash_range [OF two] obtain h where
    h: "step_hash t key = Inr h" "0 \<le> h" "h < int ?n" by (auto simp: table_size_def)
  from step_hash2_range [OF two] obtain s where
    s: "step_hash2 t key = Inr s" "1 \<le> s" "s < int ?n" by (auto simp: table_size_def)
  from is_prime_coprime [OF prime s(2,3)] have cop: "coprime (int ?n) s" .
  from hashy_probe_terminates obtain r where r: "hashy_probe t key True = Some r" by blast
  show ?thesis
  proof (cases r)
    case (Inr p)
    with r show ?thesis by blast
  next
    case (Inl e)
    from hashy_probe_errors [OF two r [unfolded Inl]] have e: "e = FullError" by simp
    have start: "(h + int 0 * s) mod int ?n = h" using h(2,3) by simp
    from r Inl e h(1) s(1) have "probe_loop (array t) key True s h h = Some (Inl FullError)"
      by (simp add: hashy_probe_def)
    then have run: "probe_loop (array t) key True s h ((h + int 0 * s) mod int ?n)
       = Some (Inl FullError)" by (simp only: start)
    have nowrap: "(h + int j * s) mod int ?n \<noteq> h" if "0 < j" and "j < ?n" for j
    proof -
      from that have "j \<noteq> 0" "int j < int ?n" "int (0::nat) < int ?n" by auto
      from probe_path_distinct [OF cop this, of h] start show ?thesis by simp
    qed
    from two have "0 < ?n" by (auto simp: table_size_def)
    from probe_loop_full [OF h(2,3) nowrap this run]
    have full: "\<forall>j. j < ?n \<longrightarrow> array t ! nat ((h + int j * s) mod int ?n) \<noteq> Empty" by simp
    from empty obtain q where q: "q < ?n" "array t ! q = Empty"
      by (auto simp: in_set_conv_nth)
    from probe_path_cover [OF cop q(1), of h] obtain i where
      "i < ?n" "(h + int i * s) mod int ?n = int q" by blast
    with full q(2) show ?thesis by auto
  qed
qed

lemma hashy_probe_fresh_key:
  assumes "hashy_probe t key True = Some (Inr p)" and "key \<notin> fst ` set (entries (array t))"
  shows "array t ! nat p = Empty"
proof (rule ccontr)
  assume ne: "array t ! nat p \<noteq> Empty"
  note res = hashy_probe_result [OF assms(1)]
  from res(3) ne obtain v where "array t ! nat p = Occupied key v"
    by (cases "array t ! nat p") auto
  with res(2) have "Occupied key v \<in> set (array t)" by (metis nth_mem)
  then have "(key, v) \<in> set (entries (array t))" by (simp add: set_entries)
  with assms(2) show False by force
qed

lemma tidy_write:
  assumes "tidy t" and "is_prime (length (array t))"
    and "key \<notin> fst ` set (entries (array t))" and "count t < table_size t"
  shows "\<exists>p. hashy_probe t key True = Some (Inr p)
    \<and> tidy (write_slot t p key data)
    \<and> set (entries (array (write_slot t p key data))) = insert (key, data) (set (entries (array t)))
    \<and> count (write_slot t p key data) = count t + 1"
proof -
  from assms(1) have inv: "lookup_inv t" "count_inv t" "Sentinel \<notin> set (array t)"
    by (simp_all add: tidy_def)
  from Empty_exists [OF inv(2,3) assms(4)] have "Empty \<in> set (array t)" .
  from hashy_probe_finds_slot [OF assms(2) this] obtain p where
    p: "hashy_probe t key True = Some (Inr p)" by blast
  from hashy_probe_fresh_key [OF p assms(3)] have e: "array t ! nat p = Empty" .
  note res = hashy_probe_result [OF p]
  have "tidy (write_slot t p key data)"
    using write_slot_lookup_inv [OF inv(1) p] write_slot_count_inv [OF inv(2) p]
      Sentinel_update [OF inv(3)]
    by (simp add: tidy_def)
  moreover have "set (entries (array (write_slot t p key data)))
      = insert (key, data) (set (entries (array t)))"
    using entries_update [OF res(2) e] by simp
  moreover have "count (write_slot t p key data) = count t + 1" using e by simp
  ultimately show ?thesis using p by blast
qed

lemma tidy_insert:
  assumes "tidy t" and "is_prime (length (array t))"
    and "key \<notin> fst ` set (entries (array t))" and "3 * (count t + 1) \<le> 2 * table_size t"
  shows "\<exists>t'. step_setitem t key data = Some (None, t') \<and> tidy t'
    \<and> set (entries (array t')) = insert (key, data) (set (entries (array t)))
    \<and> count t' = count t + 1 \<and> length (array t') = length (array t)
    \<and> size_index t' = size_index t \<and> TABLE_SIZES t' = TABLE_SIZES t"
proof -
  have "0 \<le> table_size t" by (simp add: table_size_def)
  with assms(4) have "count t < table_size t" by arith
  from tidy_write [OF assms(1,2,3) this, of data] obtain p where
    p: "hashy_probe t key True = Some (Inr p)"
    and w: "tidy (write_slot t p key data)"
      "set (entries (array (write_slot t p key data))) = insert (key, data) (set (entries (array t)))"
      "count (write_slot t p key data) = count t + 1"
    by blast
  from w(3) assms(4) have "\<not> table_size (write_slot t p key data) * 2
      < 3 * count (write_slot t p key data)" by simp
  with p have "step_setitem t key data = Some (None, write_slot t p key data)"
    by (simp add: step_setitem_unfold)
  with w show ?thesis by simp
qed

lemma tidy_rehash_loop:
  "tidy t \<Longrightarrow> is_prime (length (array t)) \<Longrightarrow> distinct (map fst (entries items)) \<Longrightarrow>
   fst ` set (entries items) \<inter> fst ` set (entries (array t)) = {} \<Longrightarrow>
   3 * (count t + int (length (entries items))) \<le> 2 * table_size t \<Longrightarrow>
   \<exists>t'. rehash_loop t items = Some (None, t') \<and> tidy t'
     \<and> set (entries (array t')) = set (entries (array t)) \<union> set (entries items)
     \<and> count t' = count t + int (length (entries items))
     \<and> length (array t') = length (array t)
     \<and> size_index t' = size_index t \<and> TABLE_SIZES t' = TABLE_SIZES t"
proof (induction items arbitrary: t rule: entries.induct)
  case 1
  then show ?case by simp
next
  case (2 k v xs)
  from "2.prems"(4) have fresh: "k \<notin> fst ` set (entries (array t))" by auto
  from "2.prems"(5) have "3 * (count t + 1) \<le> 2 * table_size t" by simp
  from tidy_insert [OF "2.prems"(1,2) fresh this, of v] obtain t1 where
    t1: "step_setitem t k v = Some (None, t1)" "tidy t1"
      "set (entries (array t1)) = insert (k, v) (set (entries (array t)))"
      "count t1 = count t + 1" "length (array t1) = length (array t)"
      "size_index t1 = size_index t" "TABLE_SIZES t1 = TABLE_SIZES t"
    by blast
  have a: "is_prime (length (array t1))" using "2.prems"(2) t1(5) by simp
  have b: "distinct (map fst (entries xs))" using "2.prems"(3) by simp
  have c: "fst ` set (entries xs) \<inter> fst ` set (entries (array t1)) = {}"
    using "2.prems"(3,4) t1(3) by auto
  have d: "3 * (count t1 + int (length (entries xs))) \<le> 2 * table_size t1"
    using "2.prems"(5) t1(4,5) by (simp add: table_size_def)
  from "2.IH" [OF t1(2) a b c d] obtain t' where
    t': "rehash_loop t1 xs = Some (None, t')" "tidy t'"
      "set (entries (array t')) = set (entries (array t1)) \<union> set (entries xs)"
      "count t' = count t1 + int (length (entries xs))" "length (array t') = length (array t1)"
      "size_index t' = size_index t1" "TABLE_SIZES t' = TABLE_SIZES t1"
    by blast
  from t1(1) t'(1) have "rehash_loop t (Occupied k v # xs) = Some (None, t')"
    by (simp add: rehash_loop_Cons)
  with t' t1 show ?case by auto
next
  case (3 xs)
  from "3.IH" [of t] "3.prems" show ?case by (simp add: rehash_loop_Cons)
next
  case (4 xs)
  from "4.IH" [of t] "4.prems" show ?case by (simp add: rehash_loop_Cons)
qed

section \<open>The claims about the step table\<close>

text \<open>
  C8. When the table has at least two slots, \<^verbatim>\<open>hash2\<close> returns (it raises nothing) a step
  between 1 and the table size minus 1, whatever the key.
\<close>

theorem step_hash2_in_range:
  assumes "2 \<le> table_size t"
  shows "\<exists>s. step_hash2 t key = Inr s \<and> 1 \<le> s \<and> s \<le> table_size t - 1"
  using assms by (rule step_hash2_range)

theorem step_hash2_in_range_witness:
  "2 \<le> table_size T5 \<and> (\<exists>s. step_hash2 T5 ''abc'' = Inr s \<and> 1 \<le> s \<and> s \<le> table_size T5 - 1)"
proof -
  have h: "2 \<le> table_size T5" by (simp add: T5_def table_size_def)
  from step_hash2_in_range [OF h] h show ?thesis by blast
qed



text \<open>
  C2. Round trip. In the perfection table a \<^verbatim>\<open>__setitem__\<close> that succeeds (the key is then a
  member of the key enumeration) is followed by a \<^verbatim>\<open>__getitem__\<close> of the same key that
  returns the value set. In the step table the same holds in every reachable state, for
  every string key, whether or not the set has rehashed.
\<close>

theorem set_then_get:
  "(perfection_setitem stats pt pkey pdata = Inr pt'
      \<longrightarrow> pkey \<in> set stats \<and> perfection_getitem stats pt' pkey = Inr pdata)
   \<and> (step_reachable t \<longrightarrow> step_setitem t key data = Some (None, t')
      \<longrightarrow> step_getitem t' key = Some (Inr data))"
proof (intro conjI impI)
  assume a: "perfection_setitem stats pt pkey pdata = Inr pt'"
  then show "pkey \<in> set stats"
    by (auto simp: perfection_setitem_def perfection_is_valid_key_def split: sum.splits if_splits)
  from a show "perfection_getitem stats pt' pkey = Inr pdata" by (rule perfection_set_get)
next
  assume r: "step_reachable t" and s: "step_setitem t key data = Some (None, t')"
  from step_reachable_inv [OF r] have inv: "lookup_inv t" by simp
  from step_lookup_inv(1) [OF s inv] have "lookup_inv t'" .
  moreover from step_stored(1) [OF s inv] have "Occupied key data \<in> set (array t')" by simp
  ultimately show "step_getitem t' key = Some (Inr data)" by (rule step_getitem_stored)
qed

lemma T5_init: "step_init (Some [5, 13]) = Inr T5"
  by (simp add: step_init_def T5_def ArrayR_def)

lemma T5_reachable: "step_reachable T5"
  by (rule step_reach_init [OF T5_init])

lemma T5_set_abc:
  "step_setitem T5 ''abc'' 7
     = Some (None, \<lparr>TABLE_SIZES = [5, 13], size_index = 0,
          array = [Empty, Empty, Empty, Empty, Occupied ''abc'' 7], count = 1\<rparr>)"
  by code_simp

lemma perfection_set_Goals:
  "perfection_setitem [''Goals''] (perfection_init :: nat perfection_table) ''Goals'' 3
     = Inr \<lparr>parray = (replicate 13 None)[11 := Some (''Goals'', 3)], pcount = 1\<rparr>"
  by code_simp

theorem set_then_get_witness:
  "perfection_getitem [''Goals'']
      \<lparr>parray = (replicate 13 None)[11 := Some (''Goals'', 3 :: nat)], pcount = 1\<rparr> ''Goals''
     = Inr 3
   \<and> step_getitem \<lparr>TABLE_SIZES = [5, 13], size_index = 0,
          array = [Empty, Empty, Empty, Empty, Occupied ''abc'' (7 :: nat)], count = 1\<rparr> ''abc''
     = Some (Inr 7)"
  using set_then_get [of "[''Goals'']" "perfection_init :: nat perfection_table" "''Goals''" 3
      "\<lparr>parray = (replicate 13 None)[11 := Some (''Goals'', 3)], pcount = 1\<rparr>"
      T5 "''abc''" 7
      "\<lparr>TABLE_SIZES = [5, 13], size_index = 0,
          array = [Empty, Empty, Empty, Empty, Occupied ''abc'' 7], count = 1\<rparr>"]
    perfection_set_Goals T5_reachable T5_set_abc
  by simp

text \<open>
  C9. In every reachable state count is at most the capacity. A \<^verbatim>\<open>__setitem__\<close> calls
  \<^verbatim>\<open>_rehash\<close> (the only thing that moves \<open>size_index\<close>) exactly when its probe has returned
  a slot and, after the write to that slot, three times count exceeds twice the capacity;
  \<^verbatim>\<open>__delitem__\<close> never does.
\<close>

theorem count_bound_and_rehash_trigger:
  assumes "step_reachable t"
  shows "count t \<le> table_size t
    \<and> (\<forall>key data r t'. step_setitem t key data = Some (r, t') \<longrightarrow>
          (size_index t' \<noteq> size_index t \<longleftrightarrow>
             (\<exists>p. hashy_probe t key True = Some (Inr p)
                  \<and> table_size (write_slot t p key data) * 2 < 3 * count (write_slot t p key data))))
    \<and> (\<forall>key r t'. step_delitem t key = Some (r, t') \<longrightarrow>
          size_index t' = size_index t \<and> table_size t' = table_size t)"
proof (intro conjI allI impI)
  from step_reachable_inv [OF assms] have "count t = int (length (filter is_occupied (array t)))"
    by (simp add: count_inv_def)
  also have "\<dots> \<le> int (length (array t))" by simp
  finally show "count t \<le> table_size t" by (simp add: table_size_def)
next
  fix key data r t'
  assume "step_setitem t key data = Some (r, t')"
  then show "size_index t' \<noteq> size_index t \<longleftrightarrow>
             (\<exists>p. hashy_probe t key True = Some (Inr p)
                  \<and> table_size (write_slot t p key data) * 2 < 3 * count (write_slot t p key data))"
  proof (cases rule: step_setitem_cases)
    case (probe_error e)
    then show ?thesis by simp
  next
    case (stored p)
    then show ?thesis by simp
  next
    case (rehashed p)
    from step_mono(2) [OF rehashed(3)] have "size_index t < size_index t'" by simp
    with rehashed(1,2) show ?thesis by auto
  qed
next
  fix key r t'
  assume "step_delitem t key = Some (r, t')"
  then have "size_index t' = size_index t \<and> table_size t' = table_size t"
    by (cases rule: step_delitem_cases) (simp_all add: table_size_def)
  then show "size_index t' = size_index t" and "table_size t' = table_size t" by simp_all
qed

theorem count_bound_and_rehash_trigger_witness:
  "count T5 \<le> table_size T5
   \<and> \<not> (\<exists>p. hashy_probe T5 ''abc'' True = Some (Inr p)
          \<and> table_size (write_slot T5 p ''abc'' 7) * 2 < 3 * count (write_slot T5 p ''abc'' 7))"
proof -
  from count_bound_and_rehash_trigger [OF T5_reachable]
  have a: "count T5 \<le> table_size T5"
    and b: "step_setitem T5 key data = Some (r, t') \<Longrightarrow>
          (size_index t' \<noteq> size_index T5 \<longleftrightarrow>
             (\<exists>p. hashy_probe T5 key True = Some (Inr p)
                  \<and> table_size (write_slot T5 p key data) * 2 < 3 * count (write_slot T5 p key data)))"
    for key data r t'
    by blast+
  from b [OF T5_set_abc] a show ?thesis by (simp add: T5_def)
qed

lemma calls_reachable:
  "step_reachable t \<Longrightarrow> calls t cs = Some t' \<Longrightarrow> step_reachable t'"
proof (induction t cs rule: calls.induct)
  case (1 t)
  then show ?case by simp
next
  case (2 t k v cs)
  from step_total(1) obtain r t1 where s: "step_setitem t k v = Some (r, t1)" by fastforce
  with "2.prems" have "calls t1 cs = Some t'" by simp
  moreover from "2.prems"(1) s have "step_reachable t1" by (rule step_reach_set)
  ultimately show ?case using "2.IH" s by simp
next
  case (3 t k cs)
  show ?case
  proof (cases "step_delitem t k")
    case None
    with "3.prems" show ?thesis by simp
  next
    case (Some res)
    obtain r t1 where res: "res = (r, t1)" by (cases res)
    with Some "3.prems" have "calls t1 cs = Some t'" by simp
    moreover from "3.prems"(1) Some res have "step_reachable t1"
      by (auto intro: step_reach_del)
    ultimately show ?thesis using "3.IH" Some res by simp
  qed
qed

lemma T_tombstones_calls:
  "calls T5 [Set ''a'' 1, Del ''a'', Set ''b'' 2, Del ''b'', Set ''c'' 3, Del ''c'',
             Set ''d'' 4, Del ''d'', Set ''e'' 5, Del ''e''] = Some T_tombstones"
  by code_simp

lemma T_deleted_calls: "calls T5 [Set ''a'' 1, Del ''a''] = Some T_deleted"
  by code_simp

text \<open>
  C3, evaluated where it fails. Five keys are set and deleted in turn in a table with the
  ladder \<^verbatim>\<open>[5, 13]\<close>: count never exceeds 1, no rehash happens, and every slot ends as the
  sentinel. The next \<^verbatim>\<open>__setitem__\<close> of a new key raises FullError from the probe although
  \<open>size_index\<close> is 0 and the ladder has a second entry.
\<close>

theorem tombstones_raise_FullError:
  "step_reachable T_tombstones
   \<and> size_index T_tombstones + 1 < length (TABLE_SIZES T_tombstones)
   \<and> step_setitem T_tombstones ''f'' 6 = Some (Some FullError, T_tombstones)"
proof -
  have "step_reachable T_tombstones"
    by (rule calls_reachable [OF T5_reachable T_tombstones_calls])
  moreover have "size_index T_tombstones + 1 < length (TABLE_SIZES T_tombstones)"
    by (simp add: T_tombstones_def)
  moreover have "step_setitem T_tombstones ''f'' 6 = Some (Some FullError, T_tombstones)"
    by code_simp
  ultimately show ?thesis by blast
qed

text \<open>
  C5, evaluated where it fails. Step table: after one key is set and deleted its slot holds
  the sentinel, and \<^verbatim>\<open>keys\<close> and \<^verbatim>\<open>values\<close> raise TypeError on it. Perfection table: with
  one key stored in slot 11, count is 1, the loop looks at slot 0 only, and \<^verbatim>\<open>keys\<close> and
  \<^verbatim>\<open>values\<close> return thirteen times \<^verbatim>\<open>None\<close>.
\<close>

theorem keys_values_miss_entries:
  "step_reachable T_deleted
   \<and> step_keys T_deleted = Inl TypeError \<and> step_values T_deleted = Inl TypeError
   \<and> perfection_reachable [''Goals''] P_Goals
   \<and> parray P_Goals ! 11 = Some (''Goals'', 3)
   \<and> perfection_keys P_Goals = Inr (replicate 13 None)
   \<and> perfection_values P_Goals = Inr (replicate 13 None)"
proof -
  have "step_reachable T_deleted"
    by (rule calls_reachable [OF T5_reachable T_deleted_calls])
  moreover have "step_keys T_deleted = Inl TypeError" by code_simp
  moreover have "step_values T_deleted = Inl TypeError" by code_simp
  moreover have "perfection_setitem [''Goals''] perfection_init ''Goals'' 3 = Inr P_Goals"
    by code_simp
  then have "perfection_reachable [''Goals''] P_Goals"
    by (rule reach_set [OF reach_init])
  moreover have "parray P_Goals ! 11 = Some (''Goals'', 3)" by code_simp
  moreover have "perfection_keys P_Goals = Inr (replicate 13 None)" by code_simp
  moreover have "perfection_values P_Goals = Inr (replicate 13 None)" by code_simp
  ultimately show ?thesis by blast
qed

lemma T_three_reachable: "step_reachable T_three"
proof -
  have "step_init (Some [5]) = Inr \<lparr>TABLE_SIZES = [5], size_index = 0,
      array = replicate 5 (Empty :: nat slot), count = 0\<rparr>"
    by (simp add: step_init_def ArrayR_def)
  then have "step_reachable \<lparr>TABLE_SIZES = [5], size_index = 0,
      array = replicate 5 (Empty :: nat slot), count = 0\<rparr>"
    by (rule step_reach_init)
  moreover have "calls \<lparr>TABLE_SIZES = [5], size_index = 0,
      array = replicate 5 (Empty :: nat slot), count = 0\<rparr>
      [Set ''a'' 1, Set ''b'' 2, Set ''c'' 3] = Some T_three"
    by code_simp
  ultimately show ?thesis by (rule calls_reachable)
qed

text \<open>
  C4 fails as stated: with the one-entry ladder \<^verbatim>\<open>[5]\<close> and three keys stored, the set of a
  fourth key raises FullError from \<^verbatim>\<open>_rehash\<close>, and afterwards the key is stored, count is
  4 instead of 3 and \<open>size_index\<close> is 1 instead of 0.
\<close>

theorem failed_set_changes_state:
  "step_reachable T_three
   \<and> step_setitem T_three ''d'' 4 = Some (Some FullError, T_four)
   \<and> step_getitem T_three ''d'' = Some (Inl KeyError)
   \<and> step_getitem T_four ''d'' = Some (Inr 4)
   \<and> count T_three = 3 \<and> count T_four = 4
   \<and> size_index T_three = 0 \<and> size_index T_four = 1"
proof -
  have "step_setitem T_three ''d'' 4 = Some (Some FullError, T_four)" by code_simp
  moreover have "step_getitem T_three ''d'' = Some (Inl KeyError)" by code_simp
  moreover have "step_getitem T_four ''d'' = Some (Inr 4)" by code_simp
  ultimately show ?thesis
    using T_three_reachable by (simp add: T_three_def T_four_def)
qed

text \<open>
  C4 as amended. On a table with at least two slots whose ladder entries are all at least
  2, every \<^verbatim>\<open>__setitem__\<close> returns, and it either succeeds or raises FullError. When the
  FullError comes from the probe, the table is as before the call. When the probe has found
  a slot and the FullError comes from \<^verbatim>\<open>_rehash\<close>, the table has changed: \<open>size_index\<close> has
  grown, and if the ladder was at its last entry the table is the one after the write to
  the slot (entry stored, count updated) with \<open>size_index\<close> one higher.
\<close>

theorem step_setitem_outcomes:
  assumes "2 \<le> table_size t" and "\<forall>n \<in> set (TABLE_SIZES t). 2 \<le> n"
  shows "\<exists>r t'. step_setitem t key data = Some (r, t')
    \<and> (r = None \<or> r = Some FullError)
    \<and> (hashy_probe t key True = Some (Inl FullError) \<longrightarrow> r = Some FullError \<and> t' = t)
    \<and> (\<forall>p. hashy_probe t key True = Some (Inr p) \<longrightarrow> r = Some FullError \<longrightarrow>
          size_index t < size_index t'
          \<and> (length (TABLE_SIZES t) \<le> size_index t + 1 \<longrightarrow>
                t' = (write_slot t p key data)\<lparr>size_index := size_index t + 1\<rparr>))"
proof -
  from step_total(1) obtain r t' where s: "step_setitem t key data = Some (r, t')" by fastforce
  from step_only_FullError(1) [OF s assms] have kinds: "r = None \<or> r = Some FullError" by simp
  have a: "hashy_probe t key True = Some (Inl FullError) \<longrightarrow> r = Some FullError \<and> t' = t"
    using s by (cases rule: step_setitem_cases) simp_all
  have b: "\<forall>p. hashy_probe t key True = Some (Inr p) \<longrightarrow> r = Some FullError \<longrightarrow>
          size_index t < size_index t'
          \<and> (length (TABLE_SIZES t) \<le> size_index t + 1 \<longrightarrow>
                t' = (write_slot t p key data)\<lparr>size_index := size_index t + 1\<rparr>)"
  proof (intro allI impI)
    fix p assume p: "hashy_probe t key True = Some (Inr p)" and f: "r = Some FullError"
    from s show "size_index t < size_index t'
          \<and> (length (TABLE_SIZES t) \<le> size_index t + 1 \<longrightarrow>
                t' = (write_slot t p key data)\<lparr>size_index := size_index t + 1\<rparr>)"
    proof (cases rule: step_setitem_cases)
      case (probe_error e)
      with p show ?thesis by simp
    next
      case (stored q)
      with f show ?thesis by simp
    next
      case (rehashed q)
      with p have q: "q = p" by simp
      from step_mono(2) [OF rehashed(3)] have "size_index t < size_index t'" by simp
      moreover have "length (TABLE_SIZES t) \<le> size_index t + 1 \<longrightarrow>
                t' = (write_slot t p key data)\<lparr>size_index := size_index t + 1\<rparr>"
        using rehashed(3) unfolding q by (cases rule: step_rehash_cases) simp_all
      ultimately show ?thesis by blast
    qed
  qed
  from s kinds a b show ?thesis by blast
qed

theorem step_setitem_outcomes_witness:
  "2 \<le> table_size T_three
   \<and> (\<exists>r t'. step_setitem T_three ''d'' 4 = Some (r, t') \<and> (r = None \<or> r = Some FullError))"
proof -
  have a: "2 \<le> table_size T_three" by (simp add: T_three_def table_size_def)
  have b: "\<forall>n \<in> set (TABLE_SIZES T_three). 2 \<le> n" by (simp add: T_three_def)
  from step_setitem_outcomes [OF a b, of "''d''" 4] a show ?thesis by blast
qed

text \<open>
  C1. Growth ladder \<^verbatim>\<open>[5, 13]\<close>, four distinct keys \<open>k1\<close> to \<open>k4\<close> set one after the other on
  the fresh table. The first three sets succeed without a rehash (\<open>size_index\<close> 0, capacity
  5, length 3 at the end). The fourth succeeds with exactly one rehash: \<open>size_index\<close> is 1,
  the capacity 13, the length 4, and each of the four keys is retrieved with the value set
  for it.
\<close>

theorem growth_ladder_5_13:
  assumes "distinct [k1, k2, k3, k4]"
  shows "\<exists>t0 t1 t2 t3 t4.
      step_init (Some [5, 13]) = Inr t0
    \<and> step_setitem t0 k1 v1 = Some (None, t1) \<and> size_index t1 = 0 \<and> table_size t1 = 5
    \<and> step_setitem t1 k2 v2 = Some (None, t2) \<and> size_index t2 = 0 \<and> table_size t2 = 5
    \<and> step_setitem t2 k3 v3 = Some (None, t3) \<and> size_index t3 = 0 \<and> table_size t3 = 5
    \<and> step_len t3 = 3
    \<and> step_setitem t3 k4 v4 = Some (None, t4) \<and> size_index t4 = 1 \<and> table_size t4 = 13
    \<and> step_len t4 = 4
    \<and> step_getitem t4 k1 = Some (Inr v1) \<and> step_getitem t4 k2 = Some (Inr v2)
    \<and> step_getitem t4 k3 = Some (Inr v3) \<and> step_getitem t4 k4 = Some (Inr v4)"
proof -
  define t0 :: "'a step_table" where
    "t0 = \<lparr>TABLE_SIZES = [5, 13], size_index = 0, array = replicate 5 Empty, count = 0\<rparr>"
  have init: "step_init (Some [5, 13]) = Inr t0"
    by (simp add: step_init_def t0_def ArrayR_def)
  have e0: "entries (array t0) = []" by (simp add: t0_def numeral_eq_Suc)
  have tidy0: "tidy t0"
    by (auto simp: tidy_def lookup_inv_def count_inv_def t0_def)
  have f0: "length (array t0) = 5" "size_index t0 = 0" "TABLE_SIZES t0 = [5, 13]" "count t0 = 0"
    by (simp_all add: t0_def)
  from assms have ne: "k1 \<noteq> k2" "k1 \<noteq> k3" "k1 \<noteq> k4" "k2 \<noteq> k3" "k2 \<noteq> k4" "k3 \<noteq> k4"
    by simp_all

  have "is_prime (length (array t0))" using f0(1) is_prime_5 by simp
  moreover have "k1 \<notin> fst ` set (entries (array t0))" using e0 by simp
  moreover have "3 * (count t0 + 1) \<le> 2 * table_size t0" using f0 by (simp add: table_size_def)
  ultimately obtain t1 where t1: "step_setitem t0 k1 v1 = Some (None, t1)" "tidy t1"
      "set (entries (array t1)) = {(k1, v1)}" "count t1 = 1" "length (array t1) = 5"
      "size_index t1 = 0" "TABLE_SIZES t1 = [5, 13]"
    using tidy_insert [OF tidy0, of k1 v1] e0 f0 by auto

  have "is_prime (length (array t1))" using t1(5) is_prime_5 by simp
  moreover have "k2 \<notin> fst ` set (entries (array t1))" using t1(3) ne by simp
  moreover have "3 * (count t1 + 1) \<le> 2 * table_size t1" using t1 by (simp add: table_size_def)
  ultimately obtain t2 where t2: "step_setitem t1 k2 v2 = Some (None, t2)" "tidy t2"
      "set (entries (array t2)) = {(k2, v2), (k1, v1)}" "count t2 = 2" "length (array t2) = 5"
      "size_index t2 = 0" "TABLE_SIZES t2 = [5, 13]"
    using tidy_insert [OF t1(2), of k2 v2] t1 by auto

  have "is_prime (length (array t2))" using t2(5) is_prime_5 by simp
  moreover have "k3 \<notin> fst ` set (entries (array t2))" using t2(3) ne by simp
  moreover have "3 * (count t2 + 1) \<le> 2 * table_size t2" using t2 by (simp add: table_size_def)
  ultimately obtain t3 where t3: "step_setitem t2 k3 v3 = Some (None, t3)" "tidy t3"
      "set (entries (array t3)) = {(k3, v3), (k2, v2), (k1, v1)}" "count t3 = 3"
      "length (array t3) = 5" "size_index t3 = 0" "TABLE_SIZES t3 = [5, 13]"
    using tidy_insert [OF t2(2), of k3 v3] t2 by auto

  have "is_prime (length (array t3))" using t3(5) is_prime_5 by simp
  moreover have "k4 \<notin> fst ` set (entries (array t3))" using t3(3) ne by simp
  moreover have "count t3 < table_size t3" using t3 by (simp add: table_size_def)
  ultimately obtain p where p: "hashy_probe t3 k4 True = Some (Inr p)"
    and w: "tidy (write_slot t3 p k4 v4)"
      "set (entries (array (write_slot t3 p k4 v4))) = {(k4, v4), (k3, v3), (k2, v2), (k1, v1)}"
      "count (write_slot t3 p k4 v4) = 4"
    using tidy_write [OF t3(2), of k4 v4] t3 by auto
  let ?w = "write_slot t3 p k4 v4"
  have wf: "length (array ?w) = 5" "size_index ?w = 0" "TABLE_SIZES ?w = [5, 13]"
    using t3 by simp_all
  have "table_size ?w * 2 < 3 * count ?w" using w(3) t3(5) by (simp add: table_size_def)
  with p have s4: "step_setitem t3 k4 v4 = step_rehash ?w"
    by (simp add: step_setitem_unfold)
  have r4: "step_rehash ?w = rehash_loop (grow ?w) (array ?w)"
    using wf by (simp add: step_rehash_unfold)
  have g: "array (grow ?w) = replicate 13 Empty" "size_index (grow ?w) = 1"
    "TABLE_SIZES (grow ?w) = [5, 13]" "count (grow ?w) = 0"
    using wf by simp_all
  have eg: "entries (array (grow ?w)) = []" unfolding g(1) by (simp add: numeral_eq_Suc)
  have tidyg: "tidy (grow ?w)"
    using lookup_inv_grow [of ?w] count_inv_grow [of ?w] g(1) by (simp add: tidy_def)
  have primeg: "is_prime (length (array (grow ?w)))" using g(1) is_prime_13 by simp
  have cnt: "length (entries (array ?w)) = 4"
    using w(1,3) by (simp add: tidy_def count_inv_def length_entries)
  have "set (map fst (entries (array ?w))) = {k4, k3, k2, k1}"
    using w(2) by simp
  moreover have "card {k4, k3, k2, k1} = 4" using ne by simp
  ultimately have "card (set (map fst (entries (array ?w)))) = length (map fst (entries (array ?w)))"
    using cnt by simp
  then have dist: "distinct (map fst (entries (array ?w)))" by (rule card_distinct)
  have disj: "fst ` set (entries (array ?w)) \<inter> fst ` set (entries (array (grow ?w))) = {}"
    using eg by simp
  have load: "3 * (count (grow ?w) + int (length (entries (array ?w)))) \<le> 2 * table_size (grow ?w)"
    using g cnt by (simp add: table_size_def)
  from tidy_rehash_loop [OF tidyg primeg dist disj load] obtain t4 where
    t4: "rehash_loop (grow ?w) (array ?w) = Some (None, t4)" "tidy t4"
      "set (entries (array t4)) = {(k4, v4), (k3, v3), (k2, v2), (k1, v1)}"
      "count t4 = 4" "length (array t4) = 13" "size_index t4 = 1"
    using eg w(2) g cnt by auto
  from s4 r4 t4(1) have set4: "step_setitem t3 k4 v4 = Some (None, t4)" by simp
  from t4(2) have inv4: "lookup_inv t4" by (simp add: tidy_def)
  have stored: "Occupied k1 v1 \<in> set (array t4)" "Occupied k2 v2 \<in> set (array t4)"
    "Occupied k3 v3 \<in> set (array t4)" "Occupied k4 v4 \<in> set (array t4)"
    using t4(3) unfolding set_entries by auto
  note gets = stored [THEN step_getitem_stored [OF inv4]]
  show ?thesis
    using init t1(1,5,6) t2(1,5,6) t3(1,4,5,6) set4 t4(4,5,6) gets
    by (intro exI [of _ t0] exI [of _ t1] exI [of _ t2] exI [of _ t3] exI [of _ t4])
       (simp add: table_size_def step_len_def)
qed

theorem growth_ladder_5_13_witness:
  "distinct [''a'', ''b'', ''c'', ''d''] \<and>
   (\<exists>t3 t4. calls T5 [Set ''a'' 1, Set ''b'' 2, Set ''c'' 3] = Some t3
      \<and> step_setitem t3 ''d'' 4 = Some (None, t4) \<and> size_index t4 = 1 \<and> table_size t4 = 13
      \<and> step_len t4 = 4 \<and> step_getitem t4 ''a'' = Some (Inr 1)
      \<and> step_getitem t4 ''b'' = Some (Inr 2) \<and> step_getitem t4 ''c'' = Some (Inr 3)
      \<and> step_getitem t4 ''d'' = Some (Inr 4))"
proof -
  have d: "distinct [''a'', ''b'', ''c'', ''d'']" by simp
  from growth_ladder_5_13 [OF d, of "1 :: nat" 2 3 4] obtain t0 t1 t2 t3 and t4 :: "nat step_table" where
    a: "step_init (Some [5, 13]) = Inr t0"
      "step_setitem t0 ''a'' 1 = Some (None, t1)"
      "step_setitem t1 ''b'' 2 = Some (None, t2)"
      "step_setitem t2 ''c'' 3 = Some (None, t3)"
    and b: "step_setitem t3 ''d'' 4 = Some (None, t4) \<and> size_index t4 = 1 \<and> table_size t4 = 13
      \<and> step_len t4 = 4 \<and> step_getitem t4 ''a'' = Some (Inr 1)
      \<and> step_getitem t4 ''b'' = Some (Inr 2) \<and> step_getitem t4 ''c'' = Some (Inr 3)
      \<and> step_getitem t4 ''d'' = Some (Inr 4)"
    by blast
  from a(1) have "t0 = T5" by (simp add: T5_init)
  with a have "calls T5 [Set ''a'' 1, Set ''b'' 2, Set ''c'' 3] = Some t3" by simp
  with b d show ?thesis by blast
qed


end
